theory Spec2Isabelle
  imports Complex_Main "HOL-Library.Sublist"
begin

section \<open>Shell building blocks\<close>

text \<open>
  The three scripts (\<^verbatim>\<open>claude-usage.sh\<close>, \<^verbatim>\<open>claude-usage-compact.sh\<close>,
  \<^verbatim>\<open>claude-usage-json.sh\<close>) are bash pipelines over the text of one captured tmux pane.
  Text is a list of bytes (\<^typ>\<open>string\<close>), as in the C locale; a stream between two line
  filters is the list of its lines.
\<close>

definition newline :: char where
  "newline = CHR 0x0A"

text \<open>\<^verbatim>\<open>$(...)\<close>: bash drops NUL bytes of the command's output and removes all trailing
  newlines.\<close>

definition command_substitution :: "string \<Rightarrow> string" where
  "command_substitution s =
     rev (dropWhile (\<lambda>c. c = newline) (rev (filter (\<lambda>c. c \<noteq> CHR 0x00) s)))"

text \<open>\<^verbatim>\<open>${v:-d}\<close>: the default \<open>d\<close> when \<open>v\<close> is unset or empty.\<close>

definition parameter_default :: "string \<Rightarrow> string \<Rightarrow> string" where
  "parameter_default v d = (if v = [] then d else v)"

text \<open>The bash builtin \<^verbatim>\<open>echo "$X"\<close> with one argument: an argument of the form
  \<^verbatim>\<open>-\<close> followed by one or more of \<^verbatim>\<open>n\<close>, \<^verbatim>\<open>e\<close>, \<^verbatim>\<open>E\<close> is taken as options (and
  \<^verbatim>\<open>-n\<close> suppresses the newline); anything else is printed followed by a newline.\<close>

definition is_echo_option :: "string \<Rightarrow> bool" where
  "is_echo_option a =
     (case a of [] \<Rightarrow> False
      | c # fl \<Rightarrow> c = CHR ''-'' \<and> fl \<noteq> [] \<and> list_all (\<lambda>x. x \<in> set ''neE'') fl)"

definition echo :: "string \<Rightarrow> string" where
  "echo a =
     (if is_echo_option a then (if CHR ''n'' \<in> set a then [] else [newline])
      else a @ [newline])"

text \<open>A filter reads its input line by line: every newline ends a line, and bytes after the
  last newline form a final line.\<close>

fun read_lines :: "string \<Rightarrow> string list" where
  "read_lines [] = []"
| "read_lines (c # cs) =
     (if c = newline then [] # read_lines cs
      else (case read_lines cs of [] \<Rightarrow> [[c]] | l # ls \<Rightarrow> (c # l) # ls))"

definition write_lines :: "string list \<Rightarrow> string" where
  "write_lines ls = concat (map (\<lambda>l. l @ [newline]) ls)"

section \<open>The filters of the pipelines\<close>

text \<open>\<^verbatim>\<open>grep PATTERN\<close> for the patterns of the scripts, which have no special character of
  basic regular expressions: a line is selected when it contains the pattern.\<close>

definition grep :: "string \<Rightarrow> string list \<Rightarrow> string list" where
  "grep pat ls = filter (sublist pat) ls"

text \<open>\<^verbatim>\<open>grep -A n PATTERN\<close>: every selected line and the \<open>n\<close> lines after it. \<open>k\<close> counts the
  context lines still to print, \<open>printed\<close> says that something has been printed, \<open>gap\<close> that
  a line was left out since; a new group after a gap is preceded by the separator
  \<^verbatim>\<open>--\<close>.\<close>

fun grep_A_from :: "nat \<Rightarrow> string \<Rightarrow> nat \<Rightarrow> bool \<Rightarrow> bool \<Rightarrow> string list \<Rightarrow> string list" where
  "grep_A_from n pat k printed gap [] = []"
| "grep_A_from n pat k printed gap (l # ls) =
     (if sublist pat l then
        (if printed \<and> gap then [''--''] else []) @ l # grep_A_from n pat n True False ls
      else if 0 < k then l # grep_A_from n pat (k - 1) True False ls
      else grep_A_from n pat 0 printed True ls)"

definition grep_A :: "nat \<Rightarrow> string \<Rightarrow> string list \<Rightarrow> string list" where
  "grep_A n pat ls = grep_A_from n pat 0 False False ls"

definition digit :: "char \<Rightarrow> bool" where
  "digit c = (c \<in> set ''0123456789'')"

text \<open>\<^verbatim>\<open>grep -oE '[0-9]+%'\<close> on one line: the non-overlapping matches from left to right, each
  the longest at its place. \<open>run\<close> is the run of digits read so far.\<close>

fun only_matching :: "string \<Rightarrow> string \<Rightarrow> string list" where
  "only_matching run [] = []"
| "only_matching run (c # cs) =
     (if digit c then only_matching (run @ [c]) cs
      else if c = CHR ''%'' \<and> run \<noteq> [] then (run @ ''%'') # only_matching [] cs
      else only_matching [] cs)"

definition grep_oE_pct :: "string list \<Rightarrow> string list" where
  "grep_oE_pct ls = concat (map (only_matching []) ls)"

definition head_1 :: "string list \<Rightarrow> string list" where
  "head_1 ls = take 1 ls"

text \<open>\<^verbatim>\<open>tr -d c\<close> works on the bytes of the stream.\<close>

definition tr_d :: "char \<Rightarrow> string \<Rightarrow> string" where
  "tr_d c s = filter (\<lambda>x. x \<noteq> c) s"

text \<open>\<^verbatim>\<open>sed 's/.*PAT//'\<close> for a literal \<open>PAT\<close>: the leftmost longest match of \<^verbatim>\<open>.*PAT\<close> starts
  at the beginning of the line and ends with the last occurrence of \<open>PAT\<close>; a line without
  the pattern is printed as it is.\<close>

fun after_last :: "string \<Rightarrow> string \<Rightarrow> string option" where
  "after_last pat [] = None"
| "after_last pat (c # cs) =
     (case after_last pat cs of
        Some r \<Rightarrow> Some r
      | None \<Rightarrow> if prefix pat (c # cs) then Some (drop (length pat) (c # cs)) else None)"

definition sed_delete_through :: "string \<Rightarrow> string \<Rightarrow> string" where
  "sed_delete_through pat l = (case after_last pat l of None \<Rightarrow> l | Some r \<Rightarrow> r)"

text \<open>\<^verbatim>\<open>[[:space:]]\<close>: space, tab, newline, vertical tab, form feed, carriage return.\<close>

definition space_class :: "char \<Rightarrow> bool" where
  "space_class c = (c \<in> set [CHR '' '', CHR 0x09, CHR 0x0A, CHR 0x0B, CHR 0x0C, CHR 0x0D])"

text \<open>\<^verbatim>\<open>sed 's/^[[:space:]]*//'\<close>.\<close>

definition sed_strip_leading :: "string \<Rightarrow> string" where
  "sed_strip_leading l = dropWhile space_class l"

text \<open>\<^verbatim>\<open>grep -E "(Current session|Current week|% used|Resets)"\<close>.\<close>

definition usage_keywords :: "string list" where
  "usage_keywords = [''Current session'', ''Current week'', ''% used'', ''Resets'']"

definition grep_E_usage :: "string list \<Rightarrow> string list" where
  "grep_E_usage ls = filter (\<lambda>l. list_ex (\<lambda>k. sublist k l) usage_keywords) ls"

text \<open>\<^verbatim>\<open>grep -v "^$"\<close>.\<close>

definition grep_v_empty :: "string list \<Rightarrow> string list" where
  "grep_v_empty ls = filter (\<lambda>l. l \<noteq> []) ls"

section \<open>The variables of the scripts\<close>

text \<open>\<^verbatim>\<open>OUTPUT=$(tmux capture-pane -t "$SESSION_NAME" -p 2>/dev/null)\<close>, from the bytes that
  \<^verbatim>\<open>tmux capture-pane\<close> writes to its standard output.\<close>

definition OUTPUT :: "string \<Rightarrow> string" where
  "OUTPUT cap = command_substitution cap"

text \<open>The lines that \<^verbatim>\<open>echo "$OUTPUT" |\<close> feeds to the first filter of every pipeline.\<close>

definition screen_lines :: "string \<Rightarrow> string list" where
  "screen_lines cap = read_lines (echo (OUTPUT cap))"

text \<open>\<^verbatim>\<open>echo "$OUTPUT" | grep -A2 HEADING | grep -oE '[0-9]+%' | head -1\<close>\<close>

definition pct_pipeline :: "string \<Rightarrow> string \<Rightarrow> string list" where
  "pct_pipeline h cap = head_1 (grep_oE_pct (grep_A 2 h (screen_lines cap)))"

text \<open>\<^verbatim>\<open>echo "$OUTPUT" | grep -A3 HEADING | grep "Resets" | sed 's/.*Resets //' | head -1\<close>\<close>

definition reset_pipeline :: "string \<Rightarrow> string \<Rightarrow> string list" where
  "reset_pipeline h cap =
     head_1 (map (sed_delete_through ''Resets '') (grep ''Resets'' (grep_A 3 h (screen_lines cap))))"

datatype window = Session | Week_all_models | Week_sonnet

fun heading :: "window \<Rightarrow> string" where
  "heading Session = ''Current session''"
| "heading Week_all_models = ''Current week (all models)''"
| "heading Week_sonnet = ''Current week (Sonnet only)''"

text \<open>\<^verbatim>\<open>claude-usage-json.sh\<close>: the percentages lose their \<^verbatim>\<open>%\<close> through \<^verbatim>\<open>tr -d '%'\<close>.\<close>

definition json_pct :: "window \<Rightarrow> string \<Rightarrow> string" where
  "json_pct w cap =
     command_substitution (tr_d (CHR ''%'') (write_lines (pct_pipeline (heading w) cap)))"

definition json_reset :: "window \<Rightarrow> string \<Rightarrow> string" where
  "json_reset w cap = command_substitution (write_lines (reset_pipeline (heading w) cap))"

definition SESSION_PCT :: "string \<Rightarrow> string" where
  "SESSION_PCT cap = json_pct Session cap"

definition WEEK_ALL_PCT :: "string \<Rightarrow> string" where
  "WEEK_ALL_PCT cap = json_pct Week_all_models cap"

definition WEEK_SONNET_PCT :: "string \<Rightarrow> string" where
  "WEEK_SONNET_PCT cap = json_pct Week_sonnet cap"

definition SESSION_RESET :: "string \<Rightarrow> string" where
  "SESSION_RESET cap = json_reset Session cap"

definition WEEK_ALL_RESET :: "string \<Rightarrow> string" where
  "WEEK_ALL_RESET cap = json_reset Week_all_models cap"

definition WEEK_SONNET_RESET :: "string \<Rightarrow> string" where
  "WEEK_SONNET_RESET cap = json_reset Week_sonnet cap"

text \<open>\<^verbatim>\<open>claude-usage-compact.sh\<close>: two windows, and the \<^verbatim>\<open>%\<close> stays in the variable.\<close>

definition compact_pct :: "window \<Rightarrow> string \<Rightarrow> string" where
  "compact_pct w cap = command_substitution (write_lines (pct_pipeline (heading w) cap))"

definition compact_SESSION_PCT :: "string \<Rightarrow> string" where
  "compact_SESSION_PCT cap = compact_pct Session cap"

definition compact_WEEK_PCT :: "string \<Rightarrow> string" where
  "compact_WEEK_PCT cap = compact_pct Week_all_models cap"

section \<open>What the scripts print\<close>

text \<open>\<^verbatim>\<open>echo "Claude: ${SESSION_PCT:-?} | Week: ${WEEK_PCT:-?}"\<close>\<close>

definition compact_stdout :: "string \<Rightarrow> string" where
  "compact_stdout cap =
     echo (''Claude: '' @ parameter_default (compact_SESSION_PCT cap) ''?''
           @ '' | Week: '' @ parameter_default (compact_WEEK_PCT cap) ''?'')"

text \<open>The here-document of \<^verbatim>\<open>claude-usage-json.sh\<close>. Expansions are inserted as they are;
  \<open>ts\<close> is the value of \<^verbatim>\<open>$(date -Iseconds)\<close>.\<close>

definition quoted :: "string \<Rightarrow> string" where
  "quoted s = CHR 0x22 # s @ [CHR 0x22]"

definition percent_used :: "window \<Rightarrow> string \<Rightarrow> string" where
  "percent_used w cap = parameter_default (json_pct w cap) ''0''"

definition resets :: "window \<Rightarrow> string \<Rightarrow> string" where
  "resets w cap = parameter_default (json_reset w cap) ''unknown''"

definition json_window :: "string \<Rightarrow> window \<Rightarrow> string \<Rightarrow> string \<Rightarrow> string list" where
  "json_window name w cap close =
     [''  '' @ quoted name @ '': {'',
      ''    '' @ quoted ''percent_used'' @ '': '' @ percent_used w cap @ '','',
      ''    '' @ quoted ''resets'' @ '': '' @ quoted (resets w cap),
      close]"

definition json_stdout :: "string \<Rightarrow> string \<Rightarrow> string" where
  "json_stdout ts cap =
     write_lines
       ([''{'', ''  '' @ quoted ''timestamp'' @ '': '' @ quoted ts @ '','']
        @ json_window ''session'' Session cap ''  },''
        @ json_window ''week_all_models'' Week_all_models cap ''  },''
        @ json_window ''week_sonnet'' Week_sonnet cap ''  }''
        @ [''}''])"

text \<open>\<^verbatim>\<open>claude-usage.sh\<close>:
  \<^verbatim>\<open>echo "$OUTPUT" | grep -E "(...)" | sed 's/^[[:space:]]*//' | grep -v "^$"\<close>\<close>

definition usage_lines :: "string \<Rightarrow> string list" where
  "usage_lines cap = grep_v_empty (map sed_strip_leading (grep_E_usage (screen_lines cap)))"

section \<open>The scripts as runs against the system\<close>

text \<open>
  The external commands a script runs, in the order it runs them. The system answers each
  with an exit status and a standard output and moves to a new state; the scripts do not
  set \<^verbatim>\<open>-e\<close> and test no status, so a run goes on whatever the answers are.
\<close>

datatype command =
    Tmux_new_session string string
  | Tmux_send_keys string string
  | Tmux_capture_pane string
  | Tmux_kill_session string
  | Sleep nat
  | Date_Iseconds

type_synonym 'w system = "'w \<Rightarrow> command \<Rightarrow> (nat \<times> string) \<times> 'w"

record 'w run =
  world :: 'w
  trace :: "command list"

record script_result =
  stdout :: string
  exit_status :: nat

definition exec :: "'w system \<Rightarrow> command \<Rightarrow> 'w run \<Rightarrow> (nat \<times> string) \<times> 'w run" where
  "exec sys c r =
     (case sys (world r) c of
        (res, w') \<Rightarrow> (res, \<lparr>world = w', trace = trace r @ [c]\<rparr>))"

definition SESSION_NAME :: "string \<Rightarrow> string" where
  "SESSION_NAME pid = ''claude-usage-'' @ pid"

text \<open>The commands all three scripts start with, up to \<^verbatim>\<open>tmux kill-session\<close>; the result is
  what \<^verbatim>\<open>tmux capture-pane\<close> wrote to its standard output.\<close>

definition capture_session :: "'w system \<Rightarrow> string \<Rightarrow> 'w run \<Rightarrow> string \<times> 'w run" where
  "capture_session sys pid r0 =
     (let name = SESSION_NAME pid;
          (s1, r1) = exec sys (Tmux_new_session name ''claude'') r0;
          (s2, r2) = exec sys (Sleep 4) r1;
          (s3, r3) = exec sys (Tmux_send_keys name ''/usage'') r2;
          (s4, r4) = exec sys (Sleep 1) r3;
          (s5, r5) = exec sys (Tmux_send_keys name ''Enter'') r4;
          (s6, r6) = exec sys (Sleep 3) r5;
          (s7, r7) = exec sys (Tmux_capture_pane name) r6;
          (s8, r8) = exec sys (Tmux_kill_session name) r7
      in (snd s7, r8))"

text \<open>The exit status of a script is that of its last command: \<^verbatim>\<open>echo\<close> and \<^verbatim>\<open>cat\<close> return
  0, and the last \<^verbatim>\<open>grep\<close> of \<^verbatim>\<open>claude-usage.sh\<close> returns 1 when it selects no line.\<close>

definition claude_usage :: "'w system \<Rightarrow> string \<Rightarrow> 'w run \<Rightarrow> script_result \<times> 'w run" where
  "claude_usage sys pid r0 =
     (let (cap, r) = capture_session sys pid r0
      in (\<lparr>stdout = write_lines (usage_lines cap),
           exit_status = (if usage_lines cap = [] then 1 else 0)\<rparr>, r))"

definition claude_usage_compact :: "'w system \<Rightarrow> string \<Rightarrow> 'w run \<Rightarrow> script_result \<times> 'w run" where
  "claude_usage_compact sys pid r0 =
     (let (cap, r) = capture_session sys pid r0
      in (\<lparr>stdout = compact_stdout cap, exit_status = 0\<rparr>, r))"

definition claude_usage_json :: "'w system \<Rightarrow> string \<Rightarrow> 'w run \<Rightarrow> script_result \<times> 'w run" where
  "claude_usage_json sys pid r0 =
     (let (cap, r) = capture_session sys pid r0;
          (d, r') = exec sys Date_Iseconds r
      in (\<lparr>stdout = json_stdout (command_substitution (snd d)) cap, exit_status = 0\<rparr>, r'))"

section \<open>Runs that are cut short\<close>

text \<open>
  The scripts set no \<^verbatim>\<open>trap\<close>. When a signal kills the script while a command runs, or a
  command never returns, no later command is run. A system with signals answers a command
  either by returning (exit status, standard output, new state) or by the end of the run.
  A script has no branch and no loop, so a run executes its commands in their order up to
  that point.
\<close>

datatype 'w outcome = Returned nat string 'w | Killed 'w

type_synonym 'w signalled_system = "'w \<Rightarrow> command \<Rightarrow> 'w outcome"

datatype script = Basic | Compact | Json

text \<open>The external commands of \<^verbatim>\<open>claude-usage.sh\<close>, \<^verbatim>\<open>claude-usage-compact.sh\<close> and
  \<^verbatim>\<open>claude-usage-json.sh\<close> in the order of the script text; the JSON script runs
  \<^verbatim>\<open>date\<close> inside its here-document, after the session is killed.\<close>

definition session_commands :: "string \<Rightarrow> command list" where
  "session_commands pid =
     [Tmux_new_session (SESSION_NAME pid) ''claude'', Sleep 4,
      Tmux_send_keys (SESSION_NAME pid) ''/usage'', Sleep 1,
      Tmux_send_keys (SESSION_NAME pid) ''Enter'', Sleep 3,
      Tmux_capture_pane (SESSION_NAME pid), Tmux_kill_session (SESSION_NAME pid)]"

fun commands_of :: "script \<Rightarrow> string \<Rightarrow> command list" where
  "commands_of Basic pid = session_commands pid"
| "commands_of Compact pid = session_commands pid"
| "commands_of Json pid = session_commands pid @ [Date_Iseconds]"

text \<open>The result says whether the run reached the end of the script; a command that was
  started is in the trace.\<close>

fun run_script :: "'w signalled_system \<Rightarrow> command list \<Rightarrow> 'w run \<Rightarrow> bool \<times> 'w run" where
  "run_script sys [] r = (True, r)"
| "run_script sys (c # cs) r =
     (case sys (world r) c of
        Returned s out w' \<Rightarrow> run_script sys cs \<lparr>world = w', trace = trace r @ [c]\<rparr>
      | Killed w' \<Rightarrow> (False, \<lparr>world = w', trace = trace r @ [c]\<rparr>))"


text \<open>A system without signals, as a system with signals.\<close>

definition never_killed :: "'w system \<Rightarrow> 'w signalled_system" where
  "never_killed sys w c = (case sys w c of ((s, out), w') \<Rightarrow> Returned s out w')"

section \<open>The usage bar of the widget\<close>

text \<open>
  A JavaScript \<^verbatim>\<open>number\<close>: a finite value, an infinity or NaN. The finite doubles are
  among the reals, and \<^verbatim>\<open>Math.min\<close>, \<^verbatim>\<open>Math.max\<close> and \<^verbatim>\<open>Math.round\<close> are exact on them
  (the sign of zero is not modelled). Of the rendered element the model keeps the class of
  the fill, the number in front of \<^verbatim>\<open>%\<close> in the width of the fill, and the number in front
  of \<^verbatim>\<open>%\<close> in the label.
\<close>

datatype number = Finite real | PosInfinity | NegInfinity | NaN

fun number_le :: "number \<Rightarrow> number \<Rightarrow> bool" where
  "number_le NaN y = False"
| "number_le x NaN = False"
| "number_le NegInfinity y = True"
| "number_le x PosInfinity = True"
| "number_le (Finite a) (Finite b) = (a \<le> b)"
| "number_le x y = False"

definition Math_max :: "number \<Rightarrow> number \<Rightarrow> number" where
  "Math_max x y = (if x = NaN \<or> y = NaN then NaN else if number_le x y then y else x)"

definition Math_min :: "number \<Rightarrow> number \<Rightarrow> number" where
  "Math_min x y = (if x = NaN \<or> y = NaN then NaN else if number_le x y then x else y)"

fun Math_round :: "number \<Rightarrow> number" where
  "Math_round (Finite a) = Finite (of_int \<lfloor>a + 1 / 2\<rfloor>)"
| "Math_round x = x"

datatype variant = Default | Opus

record usage_bar =
  fill_class :: string
  fill_width :: number
  label :: number

definition getColorClass :: "number \<Rightarrow> variant \<Rightarrow> string" where
  "getColorClass percent v =
     (if number_le (Finite 90) percent then ''bar-danger''
      else if number_le (Finite 70) percent then ''bar-warning''
      else if v = Opus then ''bar-opus'' else ''bar-accent'')"

definition clampedPercent :: "number \<Rightarrow> number" where
  "clampedPercent percent = Math_min (Finite 100) (Math_max (Finite 0) percent)"

definition UsageBar :: "number \<Rightarrow> variant \<Rightarrow> usage_bar" where
  "UsageBar percent v =
     \<lparr>fill_class = ''usage-bar-fill '' @ getColorClass percent v,
      fill_width = clampedPercent percent,
      label = Math_round percent\<rparr>"

section \<open>Notions used in the statements\<close>

text \<open>A line has a token when a digit is directly followed by \<^verbatim>\<open>%\<close>: these are the lines
  on which the expression \<^verbatim>\<open>[0-9]+%\<close> matches.\<close>

definition has_token :: "string \<Rightarrow> bool" where
  "has_token l = list_ex (\<lambda>d. sublist [d, CHR ''%''] l) ''0123456789''"

text \<open>\<open>ds\<close> are the digits of the first token of the line: a whole run of digits, directly
  followed by \<^verbatim>\<open>%\<close>, with no token before it.\<close>

definition first_token :: "string \<Rightarrow> string \<Rightarrow> bool" where
  "first_token l ds =
     (\<exists>pre post. l = pre @ ds @ ''%'' @ post \<and> ds \<noteq> [] \<and> list_all digit ds
        \<and> (pre = [] \<or> \<not> digit (last pre)) \<and> \<not> has_token pre)"

text \<open>Line \<open>k\<close> lies in the lookahead of a heading: it is a line with the heading \<open>h\<close> or
  one of the \<open>n\<close> lines after such a line.\<close>

definition in_context :: "nat \<Rightarrow> string \<Rightarrow> string list \<Rightarrow> nat \<Rightarrow> bool" where
  "in_context n h ls k = list_ex (\<lambda>i. sublist h (ls ! i)) [k - n ..< Suc k]"

text \<open>The positions of the lines that \<^verbatim>\<open>grep -A n\<close> prints when \<open>c\<close> context lines are
  still owed from before the list.\<close>

definition selected :: "nat \<Rightarrow> string \<Rightarrow> nat \<Rightarrow> string list \<Rightarrow> nat set" where
  "selected n h c ls = {k. k < c \<or> in_context n h ls k}"

text \<open>Line \<open>k\<close> is the first line in the lookahead of the heading \<open>h\<close> that satisfies \<open>P\<close>.\<close>

definition first_with :: "nat \<Rightarrow> string \<Rightarrow> (string \<Rightarrow> bool) \<Rightarrow> string list \<Rightarrow> nat \<Rightarrow> bool" where
  "first_with n h P ls k =
     (k < length ls \<and> in_context n h ls k \<and> P (ls ! k)
      \<and> list_all (\<lambda>j. in_context n h ls j \<longrightarrow> \<not> P (ls ! j)) [0..<k])"

text \<open>What \<^verbatim>\<open>claude-usage-compact.sh\<close> shows for a window: the placeholder when the pipeline
  of the window found nothing, the digits with their \<^verbatim>\<open>%\<close> when it found a token.\<close>

definition placeholder_or_percent :: "string \<Rightarrow> string \<Rightarrow> string \<Rightarrow> bool" where
  "placeholder_or_percent h cap t =
     ((t = ''?'' \<and> pct_pipeline h cap = [])
      \<or> (\<exists>ds. t = ds @ ''%'' \<and> ds \<noteq> [] \<and> list_all digit ds \<and> pct_pipeline h cap = [ds @ ''%'']))"


text \<open>A system in which every command succeeds, \<^verbatim>\<open>tmux capture-pane\<close> prints the given
  screen and every other command prints nothing.\<close>

definition quiet_system :: "string \<Rightarrow> unit system" where
  "quiet_system screen w c =
     (case c of Tmux_capture_pane t \<Rightarrow> ((0, screen), w) | _ \<Rightarrow> ((0, []), w))"

text \<open>No line in the lookahead of the heading \<open>h\<close> has a token.\<close>

definition no_token_in_lookahead :: "nat \<Rightarrow> string \<Rightarrow> string list \<Rightarrow> bool" where
  "no_token_in_lookahead n h ls =
     list_all (\<lambda>j. in_context n h ls j \<longrightarrow> \<not> has_token (ls ! j)) [0..<length ls]"


text \<open>
  Well-formed JSON texts (RFC 8259) whose value is an object, to say what the output of
  \<^verbatim>\<open>claude-usage-json.sh\<close> should be: a lexer for the tokens (strings with their escapes,
  numbers without leading zeros, the three literals) and a parser with an explicit stack of
  the open objects and arrays.
\<close>

datatype json_token = LBrace | RBrace | LBracket | RBracket | Colon | Comma | Str | Num | Lit

datatype number_state = N_minus | N_zero | N_int | N_dot | N_frac | N_exp | N_exp_sign | N_exp_digits

datatype lex_state = Idle | In_string | Escape | Hex nat | In_number number_state | In_literal string

fun number_step :: "number_state \<Rightarrow> char \<Rightarrow> number_state option" where
  "number_step N_minus c = (if c = CHR ''0'' then Some N_zero else if digit c then Some N_int else None)"
| "number_step N_zero c =
     (if c = CHR ''.'' then Some N_dot else if c \<in> set ''eE'' then Some N_exp else None)"
| "number_step N_int c =
     (if digit c then Some N_int else if c = CHR ''.'' then Some N_dot
      else if c \<in> set ''eE'' then Some N_exp else None)"
| "number_step N_dot c = (if digit c then Some N_frac else None)"
| "number_step N_frac c =
     (if digit c then Some N_frac else if c \<in> set ''eE'' then Some N_exp else None)"
| "number_step N_exp c =
     (if digit c then Some N_exp_digits else if c \<in> set ''+-'' then Some N_exp_sign else None)"
| "number_step N_exp_sign c = (if digit c then Some N_exp_digits else None)"
| "number_step N_exp_digits c = (if digit c then Some N_exp_digits else None)"

definition number_complete :: "number_state \<Rightarrow> bool" where
  "number_complete ns = (ns \<in> set [N_zero, N_int, N_frac, N_exp_digits])"

definition emit :: "json_token \<Rightarrow> json_token list option \<Rightarrow> json_token list option" where
  "emit t r = map_option (Cons t) r"

text \<open>What a character read between two tokens starts: a token of one character
  (\<open>Inl\<close>) or a state of the lexer.\<close>

definition token_start :: "char \<Rightarrow> (json_token + lex_state) option" where
  "token_start c =
     (if c \<in> set [CHR '' '', CHR 0x09, CHR 0x0A, CHR 0x0D] then Some (Inr Idle)
      else if c = CHR ''{'' then Some (Inl LBrace)
      else if c = CHR ''}'' then Some (Inl RBrace)
      else if c = CHR ''['' then Some (Inl LBracket)
      else if c = CHR '']'' then Some (Inl RBracket)
      else if c = CHR '':'' then Some (Inl Colon)
      else if c = CHR '','' then Some (Inl Comma)
      else if c = CHR 0x22 then Some (Inr In_string)
      else if c = CHR ''-'' then Some (Inr (In_number N_minus))
      else if c = CHR ''0'' then Some (Inr (In_number N_zero))
      else if digit c then Some (Inr (In_number N_int))
      else if c = CHR ''t'' then Some (Inr (In_literal ''rue''))
      else if c = CHR ''f'' then Some (Inr (In_literal ''alse''))
      else if c = CHR ''n'' then Some (Inr (In_literal ''ull''))
      else None)"

fun json_lex :: "lex_state \<Rightarrow> string \<Rightarrow> json_token list option" where
  "json_lex st [] =
     (case st of Idle \<Rightarrow> Some []
      | In_number ns \<Rightarrow> if number_complete ns then Some [Num] else None
      | _ \<Rightarrow> None)"
| "json_lex Idle (c # cs) =
     (case token_start c of None \<Rightarrow> None
      | Some (Inl t) \<Rightarrow> emit t (json_lex Idle cs)
      | Some (Inr st) \<Rightarrow> json_lex st cs)"
| "json_lex In_string (c # cs) =
     (if c = CHR 0x22 then emit Str (json_lex Idle cs)
      else if c = CHR 0x5C then json_lex Escape cs
      else if (of_char c :: nat) < 32 then None
      else json_lex In_string cs)"
| "json_lex Escape (c # cs) =
     (if c \<in> set [CHR 0x22, CHR 0x5C, CHR ''/'', CHR ''b'', CHR ''f'', CHR ''n'', CHR ''r'', CHR ''t'']
      then json_lex In_string cs
      else if c = CHR ''u'' then json_lex (Hex 4) cs else None)"
| "json_lex (Hex n) (c # cs) =
     (if c \<in> set ''0123456789abcdefABCDEF''
      then (if n \<le> 1 then json_lex In_string cs else json_lex (Hex (n - 1)) cs)
      else None)"
| "json_lex (In_number ns) (c # cs) =
     (case number_step ns c of
        Some ns' \<Rightarrow> json_lex (In_number ns') cs
      | None \<Rightarrow>
          if number_complete ns then
            (case token_start c of None \<Rightarrow> None
             | Some (Inl t) \<Rightarrow> emit Num (emit t (json_lex Idle cs))
             | Some (Inr st) \<Rightarrow> emit Num (json_lex st cs))
          else None)"
| "json_lex (In_literal rest) (c # cs) =
     (case rest of [] \<Rightarrow> None
      | r # rs \<Rightarrow>
          if c \<noteq> r then None
          else if rs = [] then emit Lit (json_lex Idle cs)
          else json_lex (In_literal rs) cs)"

datatype frame = In_object | In_array

datatype parse_state =
  Want_value | Want_value_or_close | Want_key_or_close | Want_key | Want_colon | After_value

definition value_start :: "frame list \<Rightarrow> json_token \<Rightarrow> (parse_state \<times> frame list) option" where
  "value_start stk t =
     (if t \<in> set [Str, Num, Lit] then Some (After_value, stk)
      else if t = LBrace then Some (Want_key_or_close, In_object # stk)
      else if t = LBracket then Some (Want_value_or_close, In_array # stk)
      else None)"

fun json_parse :: "parse_state \<Rightarrow> frame list \<Rightarrow> json_token list \<Rightarrow> bool" where
  "json_parse st stk [] = (st = After_value \<and> stk = [])"
| "json_parse Want_value stk (t # ts) =
     (case value_start stk t of None \<Rightarrow> False | Some (st, stk') \<Rightarrow> json_parse st stk' ts)"
| "json_parse Want_value_or_close stk (t # ts) =
     (if t = RBracket then (case stk of In_array # rest \<Rightarrow> json_parse After_value rest ts | _ \<Rightarrow> False)
      else (case value_start stk t of None \<Rightarrow> False | Some (st, stk') \<Rightarrow> json_parse st stk' ts))"
| "json_parse Want_key_or_close stk (t # ts) =
     (if t = RBrace then (case stk of In_object # rest \<Rightarrow> json_parse After_value rest ts | _ \<Rightarrow> False)
      else if t = Str then json_parse Want_colon stk ts else False)"
| "json_parse Want_key stk (t # ts) = (t = Str \<and> json_parse Want_colon stk ts)"
| "json_parse Want_colon stk (t # ts) = (t = Colon \<and> json_parse Want_value stk ts)"
| "json_parse After_value stk (t # ts) =
     (case stk of [] \<Rightarrow> False
      | In_object # rest \<Rightarrow>
          if t = Comma then json_parse Want_key stk ts
          else if t = RBrace then json_parse After_value rest ts else False
      | In_array # rest \<Rightarrow>
          if t = Comma then json_parse Want_value stk ts
          else if t = RBracket then json_parse After_value rest ts else False)"

definition json_object :: "string \<Rightarrow> bool" where
  "json_object s =
     (case json_lex Idle s of None \<Rightarrow> False
      | Some ts \<Rightarrow> (case ts of LBrace # _ \<Rightarrow> json_parse Want_value [] ts | _ \<Rightarrow> False))"

section \<open>Streams, lines and command substitution\<close>

lemma read_lines_chars: "l \<in> set (read_lines s) \<Longrightarrow> set l \<subseteq> set s - {newline}"
proof (induction s arbitrary: l)
  case Nil
  then show ?case by simp
next
  case (Cons c cs)
  show ?case
  proof (cases "c = newline")
    case True
    with Cons show ?thesis by auto
  next
    case False
    show ?thesis
    proof (cases "read_lines cs")
      case Nil
      with False Cons.prems show ?thesis by auto
    next
      case (Cons l' ls')
      with False Cons.prems have "l = c # l' \<or> l \<in> set ls'" by auto
      then show ?thesis
      proof
        assume "l = c # l'"
        moreover have "set l' \<subseteq> set cs - {newline}"
          using Cons.IH [of l'] Cons by simp
        ultimately show ?thesis using False by auto
      next
        assume "l \<in> set ls'"
        then have "set l \<subseteq> set cs - {newline}"
          using Cons.IH [of l] Cons by simp
        then show ?thesis by auto
      qed
    qed
  qed
qed

lemma read_lines_line: "newline \<notin> set l \<Longrightarrow> read_lines (l @ newline # s) = l # read_lines s"
  by (induction l) auto

lemma read_lines_write_lines:
  "(\<And>l. l \<in> set ls \<Longrightarrow> newline \<notin> set l) \<Longrightarrow> read_lines (write_lines ls) = ls"
  by (induction ls) (simp_all add: write_lines_def read_lines_line)

lemma command_substitution_chars:
  "set (command_substitution s) \<subseteq> set s - {CHR 0x00}"
proof
  fix c assume "c \<in> set (command_substitution s)"
  then have "c \<in> set (dropWhile (\<lambda>c. c = newline) (rev (filter (\<lambda>c. c \<noteq> CHR 0x00) s)))"
    by (simp add: command_substitution_def)
  then have "c \<in> set (rev (filter (\<lambda>c. c \<noteq> CHR 0x00) s))"
    by (rule set_dropWhileD)
  then show "c \<in> set s - {CHR 0x00}" by simp
qed

lemma command_substitution_empty: "command_substitution (write_lines []) = []"
  by (simp add: command_substitution_def write_lines_def)

lemma command_substitution_line:
  assumes "newline \<notin> set l" "CHR 0x00 \<notin> set l"
  shows "command_substitution (write_lines [l]) = l"
proof -
  have "filter (\<lambda>c. c \<noteq> CHR 0x00) l = l"
    using assms(2) by (auto simp: filter_id_conv)
  moreover have "dropWhile (\<lambda>c. c = newline) (rev l) = rev l"
  proof (cases "rev l")
    case (Cons a as)
    then have "a \<in> set l" by (metis list.set_intros(1) set_rev)
    with assms(1) Cons show ?thesis by auto
  qed simp
  ultimately show ?thesis
    by (simp add: command_substitution_def write_lines_def newline_def)
qed

lemma echo_lines:
  "l \<in> set (read_lines (echo a)) \<Longrightarrow> l = [] \<or> l \<in> set (read_lines (a @ [newline]))"
  by (auto simp: echo_def split: if_splits)

lemma screen_line_chars:
  assumes "l \<in> set (screen_lines cap)"
  shows "newline \<notin> set l" and "CHR 0x00 \<notin> set l"
proof -
  from assms have "l = [] \<or> l \<in> set (read_lines (OUTPUT cap @ [newline]))"
    unfolding screen_lines_def by (rule echo_lines)
  then have *: "set l \<subseteq> set (OUTPUT cap @ [newline]) - {newline}"
    using read_lines_chars by fastforce
  then show "newline \<notin> set l" by auto
  from * command_substitution_chars [of cap] show "CHR 0x00 \<notin> set l"
    by (auto simp: OUTPUT_def newline_def)
qed

section \<open>The matcher of percentages\<close>

lemma has_token_iff: "has_token l \<longleftrightarrow> (\<exists>d. digit d \<and> sublist [d, CHR ''%''] l)"
  unfolding has_token_def digit_def list_ex_iff by blast

lemma in_context_iff: "in_context n h ls k \<longleftrightarrow> (\<exists>i\<le>k. k \<le> i + n \<and> sublist h (ls ! i))"
proof -
  have "(k - n \<le> i \<and> i < Suc k) = (i \<le> k \<and> k \<le> i + n)" for i
    by arith
  moreover have "in_context n h ls k \<longleftrightarrow> (\<exists>i. (k - n \<le> i \<and> i < Suc k) \<and> sublist h (ls ! i))"
    by (simp only: in_context_def list_ex_iff set_upt atLeastLessThan_iff Bex_def)
  ultimately show ?thesis by simp
qed

lemma percent_not_digit: "\<not> digit (CHR ''%'')"
  by (simp add: digit_def)

lemma only_matching_shape:
  "list_all digit run \<Longrightarrow> t \<in> set (only_matching run l) \<Longrightarrow>
     \<exists>ds. t = ds @ ''%'' \<and> ds \<noteq> [] \<and> list_all digit ds"
proof (induction l arbitrary: run)
  case Nil
  then show ?case by simp
next
  case (Cons c cs)
  show ?case
  proof (cases "digit c")
    case True
    with Cons.prems have "t \<in> set (only_matching (run @ [c]) cs)" by simp
    moreover from True Cons.prems(1) have "list_all digit (run @ [c])" by simp
    ultimately show ?thesis by (rule Cons.IH [rotated])
  next
    case False
    show ?thesis
    proof (cases "t \<in> set (only_matching [] cs)")
      case True
      then show ?thesis using Cons.IH [of "[]"] by simp
    next
      case nt: False
      with False Cons.prems have "t = run @ ''%''" "run \<noteq> []"
        by (auto split: if_splits)
      with Cons.prems(1) show ?thesis by blast
    qed
  qed
qed

lemma only_matching_sublist:
  "t \<in> set (only_matching run l) \<Longrightarrow> sublist t (run @ l)"
proof (induction l arbitrary: run)
  case Nil
  then show ?case by simp
next
  case (Cons c cs)
  show ?case
  proof (cases "digit c")
    case True
    with Cons.prems have "t \<in> set (only_matching (run @ [c]) cs)" by simp
    then have "sublist t ((run @ [c]) @ cs)" by (rule Cons.IH)
    then show ?thesis by simp
  next
    case False
    show ?thesis
    proof (cases "t \<in> set (only_matching [] cs)")
      case True
      then have "sublist t cs" using Cons.IH [of "[]"] by simp
      then have "sublist t ((run @ [c]) @ cs)"
        by (metis sublist_append)
      then show ?thesis by simp
    next
      case nt: False
      with False Cons.prems have "t = run @ ''%''" "c = CHR ''%''"
        by (auto split: if_splits)
      then have "prefix t (run @ c # cs)" by simp
      then show ?thesis by (rule prefix_imp_sublist)
    qed
  qed
qed

lemma only_matching_none:
  assumes "\<not> has_token l"
  shows "only_matching [] l = []"
proof (rule ccontr)
  assume "only_matching [] l \<noteq> []"
  then obtain t where t: "t \<in> set (only_matching [] l)"
    by (cases "only_matching [] l") auto
  then obtain ds where ds: "t = ds @ ''%''" "ds \<noteq> []" "list_all digit ds"
    using only_matching_shape [of "[]" t l] by auto
  from ds(2) obtain ds' d where "ds = ds' @ [d]"
    by (metis rev_exhaust)
  with ds have d: "digit d" and "t = ds' @ [d, CHR ''%''] @ []" by simp_all
  then have "sublist [d, CHR ''%''] t"
    by (simp only: sublist_appendI)
  moreover from t have "sublist t l" using only_matching_sublist [of t "[]" l] by simp
  ultimately have "sublist [d, CHR ''%''] l"
    by (rule sublist_order.order_trans)
  with d have "has_token l"
    unfolding has_token_iff by blast
  with assms show False by simp
qed

lemma only_matching_digits:
  "list_all digit ds \<Longrightarrow> only_matching run (ds @ rest) = only_matching (run @ ds) rest"
  by (induction ds arbitrary: run) simp_all

lemma only_matching_split:
  "\<not> digit x \<Longrightarrow>
     only_matching run (xs @ x # rest) = only_matching run (xs @ [x]) @ only_matching [] rest"
  by (induction xs arbitrary: run) simp_all

lemma only_matching_first:
  assumes "first_token l ds"
  shows "\<exists>post. only_matching [] l = (ds @ ''%'') # only_matching [] post"
proof -
  from assms obtain pre post where l: "l = pre @ ds @ ''%'' @ post"
    and ds: "ds \<noteq> []" "list_all digit ds"
    and pre: "pre = [] \<or> \<not> digit (last pre)" "\<not> has_token pre"
    unfolding first_token_def by blast
  have tok: "only_matching [] (ds @ ''%'' @ post) = (ds @ ''%'') # only_matching [] post"
    using ds by (simp add: only_matching_digits percent_not_digit)
  show ?thesis
  proof (cases "pre = []")
    case True
    with l tok show ?thesis by auto
  next
    case False
    then obtain pre' x where px: "pre = pre' @ [x]" by (metis rev_exhaust)
    with pre(1) have nd: "\<not> digit x" by simp
    have "only_matching [] l = only_matching [] (pre' @ x # (ds @ ''%'' @ post))"
      using l px by simp
    also have "\<dots> = only_matching [] (pre' @ [x]) @ only_matching [] (ds @ ''%'' @ post)"
      using nd by (rule only_matching_split)
    also have "only_matching [] (pre' @ [x]) = []"
      using pre(2) px only_matching_none by simp
    finally show ?thesis using tok by auto
  qed
qed

section \<open>The lines selected with trailing context\<close>

lemma in_context_Cons_0: "in_context n h (l # ls) 0 \<longleftrightarrow> sublist h l"
  by (simp add: in_context_iff)

lemma in_context_Cons_Suc:
  "in_context n h (l # ls) (Suc k) \<longleftrightarrow> (sublist h l \<and> k < n) \<or> in_context n h ls k"
proof -
  have "(\<exists>i\<le>Suc k. Suc k \<le> i + n \<and> sublist h ((l # ls) ! i)) \<longleftrightarrow>
        (Suc k \<le> n \<and> sublist h l) \<or> (\<exists>i\<le>k. k \<le> i + n \<and> sublist h (ls ! i))"
    (is "?L \<longleftrightarrow> ?A \<or> ?B")
  proof
    assume ?L
    then obtain i where i: "i \<le> Suc k" "Suc k \<le> i + n" "sublist h ((l # ls) ! i)" by blast
    show "?A \<or> ?B"
    proof (cases i)
      case 0
      with i show ?thesis by simp
    next
      case (Suc j)
      with i have "j \<le> k \<and> k \<le> j + n \<and> sublist h (ls ! j)" by simp
      then show ?thesis by blast
    qed
  next
    assume "?A \<or> ?B"
    then show ?L
    proof
      assume ?A
      then have "0 \<le> Suc k \<and> Suc k \<le> 0 + n \<and> sublist h ((l # ls) ! 0)" by simp
      then show ?L by blast
    next
      assume ?B
      then obtain j where "j \<le> k" "k \<le> j + n" "sublist h (ls ! j)" by blast
      then have "Suc j \<le> Suc k \<and> Suc k \<le> Suc j + n \<and> sublist h ((l # ls) ! Suc j)" by simp
      then show ?L by blast
    qed
  qed
  then show ?thesis unfolding in_context_iff by (auto simp: Suc_le_eq)
qed

lemma selected_shift:
  assumes "c \<le> n"
  shows "{j. Suc j \<in> selected n h c (l # ls)} =
         selected n h (if sublist h l then n else c - 1) ls"
  using assms by (auto simp: selected_def in_context_Cons_Suc)

lemma selected_0:
  "0 \<in> selected n h c (l # ls) \<longleftrightarrow> sublist h l \<or> 0 < c"
  by (auto simp: selected_def in_context_Cons_0)

lemma grep_A_from_selected:
  assumes sep: "f ''--'' = []" and "c \<le> n"
  shows "concat (map f (grep_A_from n h c printed gap ls))
         = concat (map f (nths ls (selected n h c ls)))"
  using assms(2)
proof (induction ls arbitrary: c printed gap)
  case Nil
  then show ?case by simp
next
  case (Cons l ls)
  have shift: "{j. Suc j \<in> selected n h c (l # ls)} =
         selected n h (if sublist h l then n else c - 1) ls"
    using Cons.prems by (rule selected_shift)
  show ?case
  proof (cases "sublist h l")
    case True
    then have "concat (map f (grep_A_from n h c printed gap (l # ls)))
        = f l @ concat (map f (grep_A_from n h n True False ls))"
      by (simp add: sep)
    also have "\<dots> = f l @ concat (map f (nths ls (selected n h n ls)))"
      using Cons.IH [of n] by simp
    also have "\<dots> = concat (map f (nths (l # ls) (selected n h c (l # ls))))"
      using True by (simp add: nths_Cons selected_0 shift)
    finally show ?thesis .
  next
    case False
    show ?thesis
    proof (cases "0 < c")
      case True
      with False have "concat (map f (grep_A_from n h c printed gap (l # ls)))
          = f l @ concat (map f (grep_A_from n h (c - 1) True False ls))"
        by simp
      also have "\<dots> = f l @ concat (map f (nths ls (selected n h (c - 1) ls)))"
        using Cons.IH [of "c - 1"] Cons.prems by simp
      also have "\<dots> = concat (map f (nths (l # ls) (selected n h c (l # ls))))"
        using True False by (simp add: nths_Cons selected_0 shift)
      finally show ?thesis .
    next
      case c0: False
      with False have "concat (map f (grep_A_from n h c printed gap (l # ls)))
          = concat (map f (grep_A_from n h 0 printed True ls))"
        by simp
      also have "\<dots> = concat (map f (nths ls (selected n h 0 ls)))"
        using Cons.IH [of 0] by simp
      also have "\<dots> = concat (map f (nths (l # ls) (selected n h c (l # ls))))"
      proof -
        from c0 False shift have "{j. Suc j \<in> selected n h c (l # ls)} = selected n h 0 ls"
          by simp
        moreover from c0 False have "0 \<notin> selected n h c (l # ls)"
          by (simp add: selected_0)
        ultimately show ?thesis by (simp add: nths_Cons)
      qed
      finally show ?thesis .
    qed
  qed
qed

lemma grep_oE_pct_grep_A:
  "grep_oE_pct (grep_A n h ls) = grep_oE_pct (nths ls {k. in_context n h ls k})"
proof -
  have "only_matching [] ''--'' = []" by (simp add: digit_def)
  then show ?thesis
    unfolding grep_oE_pct_def grep_A_def
    using grep_A_from_selected [of "only_matching []" 0 n h False False ls]
    by (simp add: selected_def)
qed

lemma filter_grep_A:
  assumes "\<not> P ''--''"
  shows "filter P (grep_A n h ls) = filter P (nths ls {k. in_context n h ls k})"
proof -
  let ?f = "\<lambda>l. if P l then [l] else []"
  have "?f ''--'' = []" using assms by simp
  then have "concat (map ?f (grep_A_from n h 0 False False ls))
         = concat (map ?f (nths ls (selected n h 0 ls)))"
    by (rule grep_A_from_selected) simp
  moreover have "filter P xs = concat (map ?f xs)" for xs
    by (induction xs) simp_all
  ultimately show ?thesis by (simp add: grep_A_def selected_def)
qed

text \<open>The first of the selected lines with a token decides the result.\<close>

lemma nths_split:
  assumes "k < length ls" "k \<in> A"
  shows "nths ls A = nths (take k ls) A @ (ls ! k) # nths (drop (Suc k) ls) {j. j + Suc k \<in> A}"
proof -
  have "ls = take k ls @ (ls ! k) # drop (Suc k) ls"
    using assms(1) by (simp add: id_take_nth_drop)
  then have "nths ls A = nths (take k ls @ (ls ! k) # drop (Suc k) ls) A" by simp
  also have "\<dots> = nths (take k ls) A @ nths ((ls ! k) # drop (Suc k) ls) {j. j + k \<in> A}"
    using assms(1) by (simp add: nths_append)
  also have "nths ((ls ! k) # drop (Suc k) ls) {j. j + k \<in> A}
             = (ls ! k) # nths (drop (Suc k) ls) {j. j + Suc k \<in> A}"
    using assms(2) by (simp add: nths_Cons)
  finally show ?thesis .
qed

lemma concat_map_nths_first:
  assumes "k < length ls" "k \<in> A"
    and "\<And>j. j < k \<Longrightarrow> j \<in> A \<Longrightarrow> f (ls ! j) = []"
  shows "concat (map f (nths ls A))
         = f (ls ! k) @ concat (map f (nths (drop (Suc k) ls) {j. j + Suc k \<in> A}))"
proof -
  have "f l = []" if "l \<in> set (nths (take k ls) A)" for l
  proof -
    from that obtain j where "j < length (take k ls)" "j \<in> A" "l = take k ls ! j"
      by (auto simp: set_nths)
    then have "j < k" "j \<in> A" "l = ls ! j" by simp_all
    then show ?thesis using assms(3) by simp
  qed
  then have before: "concat (map f (nths (take k ls) A)) = []"
    by simp
  show ?thesis
    by (simp only: nths_split [OF assms(1,2)] map_append concat_append before
        list.map concat.simps append_Nil)
qed

lemma grep_oE_pct_first:
  assumes "k < length ls" "k \<in> A" "first_token (ls ! k) ds"
    and "\<And>j. j < k \<Longrightarrow> j \<in> A \<Longrightarrow> \<not> has_token (ls ! j)"
  shows "head_1 (grep_oE_pct (nths ls A)) = [ds @ ''%'']"
proof -
  obtain post where "only_matching [] (ls ! k) = (ds @ ''%'') # only_matching [] post"
    using only_matching_first [OF assms(3)] by blast
  moreover have "concat (map (only_matching []) (nths ls A))
         = only_matching [] (ls ! k)
           @ concat (map (only_matching []) (nths (drop (Suc k) ls) {j. j + Suc k \<in> A}))"
    using assms(1,2) only_matching_none [OF assms(4)] by (rule concat_map_nths_first)
  ultimately show ?thesis
    by (simp add: grep_oE_pct_def head_1_def)
qed

section \<open>The percentage of a window\<close>

lemma digit_plain:
  assumes "digit c"
  shows "c \<noteq> newline" "c \<noteq> CHR 0x00" "c \<noteq> CHR ''%''" "c \<noteq> CHR ''-''"
  using assms by (auto simp: digit_def newline_def)

lemma digits_plain:
  assumes "list_all digit ds"
  shows "newline \<notin> set ds" "CHR 0x00 \<notin> set ds" "CHR ''%'' \<notin> set ds" "CHR ''-'' \<notin> set ds"
  using assms digit_plain unfolding list_all_iff by blast+

lemma tr_d_token:
  assumes "list_all digit ds"
  shows "tr_d (CHR ''%'') (write_lines [ds @ ''%'']) = write_lines [ds]"
proof -
  have "filter (\<lambda>x. x \<noteq> CHR ''%'') ds = ds"
    using digits_plain(3) [OF assms] by (auto simp: filter_id_conv)
  then show ?thesis
    by (simp add: tr_d_def write_lines_def newline_def)
qed

lemma pct_of_token:
  assumes "pct_pipeline (heading w) cap = [ds @ ''%'']" "list_all digit ds"
  shows "json_pct w cap = ds" and "compact_pct w cap = ds @ ''%''"
proof -
  note plain = digits_plain [OF assms(2)]
  have "command_substitution (write_lines [ds]) = ds"
    using plain(1,2) by (rule command_substitution_line)
  then show "json_pct w cap = ds"
    by (simp only: json_pct_def assms(1) tr_d_token [OF assms(2)])
  have "newline \<notin> set (ds @ ''%'')" "CHR 0x00 \<notin> set (ds @ ''%'')"
    using plain(1,2) by (simp_all add: newline_def)
  then have "command_substitution (write_lines [ds @ ''%'']) = ds @ ''%''"
    by (rule command_substitution_line)
  then show "compact_pct w cap = ds @ ''%''"
    by (simp only: compact_pct_def assms(1))
qed

lemma pct_of_nothing:
  assumes "pct_pipeline (heading w) cap = []"
  shows "json_pct w cap = []" and "compact_pct w cap = []"
  using assms
  by (simp_all add: json_pct_def compact_pct_def write_lines_def tr_d_def command_substitution_def)

section \<open>Further facts about the pipelines and the scripts\<close>

lemma capture_session_trace:
  "trace (snd (capture_session sys pid r0)) =
     trace r0 @ [Tmux_new_session (SESSION_NAME pid) ''claude'', Sleep 4,
       Tmux_send_keys (SESSION_NAME pid) ''/usage'', Sleep 1,
       Tmux_send_keys (SESSION_NAME pid) ''Enter'', Sleep 3,
       Tmux_capture_pane (SESSION_NAME pid), Tmux_kill_session (SESSION_NAME pid)]"
  by (simp add: capture_session_def exec_def Let_def split: prod.splits)

lemma script_runs:
  "snd (claude_usage sys pid r0) = snd (capture_session sys pid r0)"
  "snd (claude_usage_compact sys pid r0) = snd (capture_session sys pid r0)"
  "trace (snd (claude_usage_json sys pid r0))
     = trace (snd (capture_session sys pid r0)) @ [Date_Iseconds]"
  by (simp_all add: claude_usage_def claude_usage_compact_def claude_usage_json_def exec_def
      split: prod.splits)

lemma sublist_dropWhile:
  assumes "sublist k l" "k \<noteq> []" "\<not> P (hd k)"
  shows "sublist k (dropWhile P l)"
proof -
  from assms(1) obtain ps ss where l: "l = ps @ k @ ss"
    unfolding sublist_def by blast
  from assms(2,3) have k: "dropWhile P (k @ ss) = k @ ss"
    by (cases k) simp_all
  have "sublist k (dropWhile P (ps @ k @ ss))"
  proof (induction ps)
    case Nil
    show ?case unfolding append_Nil k by (rule sublist_append_rightI)
  next
    case (Cons p ps)
    show ?case
    proof (cases "P p")
      case True
      with Cons show ?thesis by simp
    next
      case False
      have "sublist k ((p # ps) @ k @ ss)" by (rule sublist_appendI)
      with False show ?thesis by simp
    qed
  qed
  with l show ?thesis by simp
qed

lemma usage_keyword_start: "k \<in> set usage_keywords \<Longrightarrow> k \<noteq> [] \<and> \<not> space_class (hd k)"
  by (auto simp: usage_keywords_def space_class_def)

lemma usage_line:
  assumes "l \<in> set (usage_lines cap)"
  shows "l \<noteq> []" "\<not> space_class (hd l)" "list_ex (\<lambda>k. sublist k l) usage_keywords"
    "newline \<notin> set l"
proof -
  from assms obtain l0 where l0: "l0 \<in> set (screen_lines cap)"
    "list_ex (\<lambda>k. sublist k l0) usage_keywords" and l: "l = dropWhile space_class l0" "l \<noteq> []"
    by (auto simp: usage_lines_def grep_v_empty_def grep_E_usage_def sed_strip_leading_def)
  show "l \<noteq> []" by fact
  then show "\<not> space_class (hd l)" unfolding l(1) by (rule hd_dropWhile)
  from l0(2) obtain k where "k \<in> set usage_keywords" "sublist k l0"
    unfolding list_ex_iff by blast
  then have "k \<in> set usage_keywords" "sublist k l"
    using usage_keyword_start [of k] sublist_dropWhile [of k l0 space_class] l(1) by simp_all
  then show "list_ex (\<lambda>k. sublist k l) usage_keywords"
    unfolding list_ex_iff by blast
  have "set l \<subseteq> set l0" unfolding l(1) using set_dropWhileD by fastforce
  with screen_line_chars(1) [OF l0(1)] show "newline \<notin> set l" by blast
qed

lemma claude_usage_stdout:
  "stdout (fst (claude_usage sys pid r0))
     = write_lines (usage_lines (fst (capture_session sys pid r0)))"
  by (simp add: claude_usage_def split: prod.splits)

lemma after_last_None:
  "after_last pat l = None \<Longrightarrow> pat \<noteq> [] \<Longrightarrow> \<not> sublist pat l"
proof (induction l)
  case Nil
  then show ?case by simp
next
  case (Cons c cs)
  from Cons.prems(1) have "after_last pat cs = None" "\<not> prefix pat (c # cs)"
    by (auto split: option.splits if_splits)
  with Cons show ?case by (simp add: sublist_Cons_right)
qed

text \<open>The result of \<open>after_last\<close> is what follows the last place where the pattern starts.\<close>

lemma after_last_Some:
  "after_last pat l = Some r \<Longrightarrow> pat \<noteq> [] \<Longrightarrow>
     \<exists>pre. l = pre @ pat @ r
       \<and> (\<forall>pre' r'. l = pre' @ pat @ r' \<longrightarrow> length pre' \<le> length pre)"
proof (induction l arbitrary: r)
  case Nil
  then show ?case by simp
next
  case (Cons c cs)
  show ?case
  proof (cases "after_last pat cs")
    case (Some r0)
    with Cons.prems(1) have "r0 = r" by simp
    with Some Cons.IH Cons.prems(2) obtain pre where pre: "cs = pre @ pat @ r"
      "\<forall>pre' r'. cs = pre' @ pat @ r' \<longrightarrow> length pre' \<le> length pre"
      by blast
    have "length pre' \<le> length (c # pre)" if "c # cs = pre' @ pat @ r'" for pre' r'
    proof (cases pre')
      case Nil
      then show ?thesis by simp
    next
      case (Cons x xs)
      with that have "cs = xs @ pat @ r'" by simp
      with pre(2) have "length xs \<le> length pre" by blast
      with Cons show ?thesis by simp
    qed
    moreover have "c # cs = (c # pre) @ pat @ r" using pre(1) by simp
    ultimately show ?thesis by blast
  next
    case None
    with Cons.prems(1) have p: "prefix pat (c # cs)" and r: "r = drop (length pat) (c # cs)"
      by (auto split: if_splits)
    from p obtain zs where "c # cs = pat @ zs" unfolding prefix_def by blast
    with r have here: "c # cs = [] @ pat @ r" by simp
    from None Cons.prems(2) have no: "\<not> sublist pat cs" by (rule after_last_None)
    have "length pre' \<le> length ([] :: string)" if "c # cs = pre' @ pat @ r'" for pre' r'
    proof (cases pre')
      case Nil
      then show ?thesis by simp
    next
      case (Cons x xs)
      with that have "cs = xs @ pat @ r'" by simp
      then have "sublist pat cs" unfolding sublist_def by blast
      with no show ?thesis by simp
    qed
    with here show ?thesis by blast
  qed
qed

lemma after_last_clean:
  assumes "after_last pat l = Some r" "pat \<noteq> []"
  shows "\<not> sublist pat r"
proof
  assume "sublist pat r"
  then obtain a b where r: "r = a @ pat @ b" unfolding sublist_def by blast
  from after_last_Some [OF assms] obtain pre where pre: "l = pre @ pat @ r"
    "\<forall>pre' r'. l = pre' @ pat @ r' \<longrightarrow> length pre' \<le> length pre"
    by blast
  from pre(1) r have "l = (pre @ pat @ a) @ pat @ b" by simp
  with pre(2) have "length (pre @ pat @ a) \<le> length pre" by blast
  with assms(2) show False by simp
qed

lemma sed_delete_through_cases:
  assumes "pat \<noteq> []"
  shows "(\<not> sublist pat l \<and> sed_delete_through pat l = l)
       \<or> (\<exists>pre. l = pre @ pat @ sed_delete_through pat l
            \<and> (\<forall>pre' r'. l = pre' @ pat @ r' \<longrightarrow> length pre' \<le> length pre))"
proof (cases "after_last pat l")
  case None
  then show ?thesis
    using after_last_None [OF None assms] by (simp add: sed_delete_through_def)
next
  case (Some r)
  then show ?thesis
    using after_last_Some [OF Some assms] by (simp add: sed_delete_through_def)
qed

lemma sed_delete_through_clean:
  assumes "pat \<noteq> []"
  shows "\<not> sublist pat (sed_delete_through pat l)"
proof (cases "after_last pat l")
  case None
  then show ?thesis
    using after_last_None [OF None assms] by (simp add: sed_delete_through_def)
next
  case (Some r)
  then show ?thesis
    using after_last_clean [OF Some assms] by (simp add: sed_delete_through_def)
qed

lemma sed_delete_through_chars: "set (sed_delete_through pat l) \<subseteq> set l"
proof (cases "after_last pat l")
  case None
  then show ?thesis by (simp add: sed_delete_through_def)
next
  case (Some r)
  have "after_last pat l = Some r \<Longrightarrow> set r \<subseteq> set l"
  proof (induction l)
    case Nil
    then show ?case by simp
  next
    case (Cons c cs)
    show ?case
    proof (cases "after_last pat cs")
      case None
      with Cons.prems have "r = drop (length pat) (c # cs)" by (auto split: if_splits)
      then show ?thesis using set_drop_subset by metis
    next
      case (Some r0)
      with Cons show ?thesis by auto
    qed
  qed
  with Some show ?thesis by (simp add: sed_delete_through_def)
qed

lemma nths_subset: "l \<in> set (nths ls A) \<Longrightarrow> l \<in> set ls"
  by (auto simp: set_nths)

lemma pct_pipeline_cases:
  "pct_pipeline h cap = []
   \<or> (\<exists>ds l. pct_pipeline h cap = [ds @ ''%''] \<and> ds \<noteq> [] \<and> list_all digit ds
        \<and> l \<in> set (screen_lines cap) \<and> sublist (ds @ ''%'') l)"
proof (cases "grep_oE_pct (grep_A 2 h (screen_lines cap))")
  case Nil
  then show ?thesis by (simp add: pct_pipeline_def head_1_def)
next
  case (Cons t ts)
  let ?sel = "nths (screen_lines cap) {k. in_context 2 h (screen_lines cap) k}"
  from Cons have "t \<in> set (concat (map (only_matching []) ?sel))"
    by (simp add: grep_oE_pct_grep_A [unfolded grep_oE_pct_def] grep_oE_pct_def)
  then obtain l where l: "l \<in> set ?sel" "t \<in> set (only_matching [] l)"
    by auto
  from l(1) have "l \<in> set (screen_lines cap)" by (rule nths_subset)
  moreover from l(2) obtain ds where "t = ds @ ''%''" "ds \<noteq> []" "list_all digit ds"
    using only_matching_shape [of "[]" t l] by auto
  moreover from l(2) have "sublist t l"
    using only_matching_sublist [of t "[]" l] by simp
  moreover from Cons have "pct_pipeline h cap = [t]"
    by (simp add: pct_pipeline_def head_1_def)
  ultimately show ?thesis by blast
qed

lemma keyword_not_separator: "\<not> sublist ''Resets'' ''--''"
  by code_simp

lemma reset_lines:
  "grep ''Resets'' (grep_A 3 h ls)
     = filter (sublist ''Resets'') (nths ls {k. in_context 3 h ls k})"
  unfolding grep_def using keyword_not_separator by (rule filter_grep_A)

lemma reset_pipeline_cases:
  "reset_pipeline h cap = []
   \<or> (\<exists>l. reset_pipeline h cap = [sed_delete_through ''Resets '' l] \<and> l \<in> set (screen_lines cap))"
proof (cases "grep ''Resets'' (grep_A 3 h (screen_lines cap))")
  case Nil
  then show ?thesis by (simp add: reset_pipeline_def head_1_def)
next
  case (Cons l ls)
  then have "l \<in> set (filter (sublist ''Resets'')
      (nths (screen_lines cap) {k. in_context 3 h (screen_lines cap) k}))"
    by (simp add: reset_lines)
  then have "l \<in> set (screen_lines cap)"
    using nths_subset by fastforce
  moreover from Cons have "reset_pipeline h cap = [sed_delete_through ''Resets '' l]"
    by (simp add: reset_pipeline_def head_1_def)
  ultimately show ?thesis by blast
qed

lemma reset_of_line:
  assumes "reset_pipeline (heading w) cap = [sed_delete_through ''Resets '' l]"
    and "l \<in> set (screen_lines cap)"
  shows "json_reset w cap = sed_delete_through ''Resets '' l"
proof -
  have "set (sed_delete_through ''Resets '' l) \<subseteq> set l"
    by (rule sed_delete_through_chars)
  with screen_line_chars [OF assms(2)]
  have "newline \<notin> set (sed_delete_through ''Resets '' l)"
    "CHR 0x00 \<notin> set (sed_delete_through ''Resets '' l)"
    by blast+
  then have "command_substitution (write_lines [sed_delete_through ''Resets '' l])
      = sed_delete_through ''Resets '' l"
    by (rule command_substitution_line)
  then show ?thesis by (simp only: json_reset_def assms(1))
qed

lemma reset_of_nothing:
  assumes "reset_pipeline (heading w) cap = []"
  shows "json_reset w cap = []"
  using assms by (simp add: json_reset_def write_lines_def command_substitution_def)

lemma resets_clean: "\<not> sublist ''Resets '' (resets w cap)"
proof -
  have u: "\<not> sublist ''Resets '' ''unknown''" by code_simp
  have c: "\<not> sublist ''Resets '' (sed_delete_through ''Resets '' l)" for l
    by (rule sed_delete_through_clean) simp
  from reset_pipeline_cases [of "heading w" cap] show ?thesis
  proof
    assume "reset_pipeline (heading w) cap = []"
    then have "json_reset w cap = []" by (rule reset_of_nothing)
    with u show ?thesis by (simp add: resets_def parameter_default_def)
  next
    assume "\<exists>l. reset_pipeline (heading w) cap = [sed_delete_through ''Resets '' l]
      \<and> l \<in> set (screen_lines cap)"
    then obtain l where "json_reset w cap = sed_delete_through ''Resets '' l"
      using reset_of_line by blast
    with u c [of l] show ?thesis by (simp add: resets_def parameter_default_def)
  qed
qed

lemma first_with_iff:
  "first_with n h P ls k \<longleftrightarrow>
     k < length ls \<and> in_context n h ls k \<and> P (ls ! k)
     \<and> (\<forall>j<k. in_context n h ls j \<longrightarrow> \<not> P (ls ! j))"
  by (auto simp: first_with_def list_all_iff)

lemma reset_first_line:
  assumes "first_with 3 (heading w) (sublist ''Resets'') (screen_lines cap) k"
  shows "json_reset w cap = sed_delete_through ''Resets '' (screen_lines cap ! k)"
proof -
  let ?ls = "screen_lines cap"
  let ?A = "{k. in_context 3 (heading w) ?ls k}"
  let ?f = "\<lambda>l. if sublist ''Resets'' l then [l] else []"
  from assms have k: "k < length ?ls" "k \<in> ?A" "sublist ''Resets'' (?ls ! k)"
    and before: "\<And>j. j < k \<Longrightarrow> j \<in> ?A \<Longrightarrow> ?f (?ls ! j) = []"
    by (simp_all add: first_with_iff)
  have flt: "filter (sublist ''Resets'') xs = concat (map ?f xs)" for xs
    by (induction xs) simp_all
  have "concat (map ?f (nths ?ls ?A))
      = ?f (?ls ! k) @ concat (map ?f (nths (drop (Suc k) ?ls) {j. j + Suc k \<in> ?A}))"
    using k(1,2) before by (rule concat_map_nths_first)
  with k(3) have "\<exists>rest. filter (sublist ''Resets'') (nths ?ls ?A) = (?ls ! k) # rest"
    by (simp add: flt)
  then have "reset_pipeline (heading w) cap = [sed_delete_through ''Resets '' (?ls ! k)]"
    by (auto simp: reset_pipeline_def reset_lines head_1_def)
  moreover from k(1) have "?ls ! k \<in> set ?ls" by simp
  ultimately show ?thesis by (rule reset_of_line)
qed

lemma compact_pct_cases:
  "(compact_pct w cap = [] \<and> pct_pipeline (heading w) cap = [])
   \<or> (\<exists>ds l. compact_pct w cap = ds @ ''%'' \<and> pct_pipeline (heading w) cap = [ds @ ''%'']
         \<and> ds \<noteq> [] \<and> list_all digit ds
         \<and> l \<in> set (screen_lines cap) \<and> sublist (ds @ ''%'') l)"
  using pct_pipeline_cases [of "heading w" cap]
proof
  assume "pct_pipeline (heading w) cap = []"
  then show ?thesis using pct_of_nothing(2) by blast
next
  assume "\<exists>ds l. pct_pipeline (heading w) cap = [ds @ ''%''] \<and> ds \<noteq> [] \<and> list_all digit ds
        \<and> l \<in> set (screen_lines cap) \<and> sublist (ds @ ''%'') l"
  then obtain ds l where *: "pct_pipeline (heading w) cap = [ds @ ''%'']" "ds \<noteq> []"
    "list_all digit ds" "l \<in> set (screen_lines cap)" "sublist (ds @ ''%'') l"
    by blast
  from pct_of_token(2) [OF *(1,3)] * show ?thesis by blast
qed

lemma compact_field_no_minus:
  "CHR ''-'' \<notin> set (parameter_default (compact_pct w cap) ''?'')"
  using compact_pct_cases [of w cap] digits_plain(4)
  by (auto simp: parameter_default_def)

lemma echo_plain: "\<not> is_echo_option (''Claude: '' @ s)"
  by (simp add: is_echo_option_def)

lemma compact_stdout_eq:
  "compact_stdout cap =
     ''Claude: '' @ parameter_default (compact_pct Session cap) ''?''
       @ '' | Week: '' @ parameter_default (compact_pct Week_all_models cap) ''?'' @ [newline]"
  by (simp add: compact_stdout_def echo_def echo_plain [unfolded append_Cons append_Nil]
      compact_SESSION_PCT_def compact_WEEK_PCT_def is_echo_option_def)

lemma compact_field:
  "placeholder_or_percent (heading w) cap (parameter_default (compact_pct w cap) ''?'')
   \<and> newline \<notin> set (parameter_default (compact_pct w cap) ''?'')"
  using compact_pct_cases [of w cap] digits_plain(1)
  by (auto simp: placeholder_or_percent_def parameter_default_def newline_def)

lemma claude_usage_compact_result:
  "fst (claude_usage_compact sys pid r0)
     = \<lparr>stdout = compact_stdout (fst (capture_session sys pid r0)), exit_status = 0\<rparr>"
  by (simp add: claude_usage_compact_def split: prod.splits)









section \<open>Runs with signals, and the two cases of a lookahead\<close>









lemma run_script_never_killed:
  "run_script (never_killed sys) (commands_of Basic pid) r0 = (True, snd (claude_usage sys pid r0))"
  "run_script (never_killed sys) (commands_of Compact pid) r0
     = (True, snd (claude_usage_compact sys pid r0))"
  "run_script (never_killed sys) (commands_of Json pid) r0 = (True, snd (claude_usage_json sys pid r0))"
  by (simp_all add: session_commands_def never_killed_def claude_usage_def
      claude_usage_compact_def claude_usage_json_def capture_session_def exec_def Let_def
      split: prod.splits)

lemma pct_pipeline_first:
  assumes "first_with 2 h has_token (screen_lines cap) k"
    and "first_token (screen_lines cap ! k) ds"
  shows "pct_pipeline h cap = [ds @ ''%'']"
proof -
  let ?ls = "screen_lines cap"
  let ?A = "{k. in_context 2 h ?ls k}"
  from assms(1) have k: "k < length ?ls" "k \<in> ?A"
    and before: "\<And>j. j < k \<Longrightarrow> j \<in> ?A \<Longrightarrow> \<not> has_token (?ls ! j)"
    by (simp_all add: first_with_iff)
  from k assms(2) before have "head_1 (grep_oE_pct (nths ?ls ?A)) = [ds @ ''%'']"
    by (rule grep_oE_pct_first)
  then show ?thesis
    by (simp only: pct_pipeline_def grep_oE_pct_grep_A)
qed

lemma pct_pipeline_none:
  assumes "no_token_in_lookahead 2 h (screen_lines cap)"
  shows "pct_pipeline h cap = []"
proof -
  let ?ls = "screen_lines cap"
  let ?A = "{k. in_context 2 h ?ls k}"
  have "only_matching [] l = []" if "l \<in> set (nths ?ls ?A)" for l
  proof -
    from that obtain j where "j < length ?ls" "j \<in> ?A" "l = ?ls ! j"
      by (auto simp: set_nths)
    with assms have "\<not> has_token l"
      by (simp add: no_token_in_lookahead_def list_all_iff)
    then show ?thesis by (rule only_matching_none)
  qed
  then have "grep_oE_pct (nths ?ls ?A) = []"
    by (simp add: grep_oE_pct_def)
  then show ?thesis
    by (simp add: pct_pipeline_def grep_oE_pct_grep_A head_1_def)
qed

lemma first_token_exists:
  assumes "has_token l"
  shows "\<exists>ds. first_token l ds"
proof -
  define P where "P n \<longleftrightarrow> (\<exists>d post. digit d \<and> drop n l = d # CHR ''%'' # post)" for n
  from assms obtain d0 ps ss where "digit d0" "l = ps @ [d0, CHR ''%''] @ ss"
    unfolding has_token_iff sublist_def by blast
  then have "P (length ps)" unfolding P_def by auto
  then obtain n where n: "P n" and least: "\<And>m. m < n \<Longrightarrow> \<not> P m"
    using exists_least_iff [of P] by blast
  from n obtain d post where d: "digit d" and dr: "drop n l = d # CHR ''%'' # post"
    unfolding P_def by blast
  have nl: "n < length l"
  proof (rule ccontr)
    assume "\<not> n < length l"
    then have "drop n l = []" by simp
    with dr show False by simp
  qed
  define pre0 where "pre0 = take n l"
  define run where "run = rev (takeWhile digit (rev pre0))"
  define pre where "pre = rev (dropWhile digit (rev pre0))"
  have len0: "length pre0 = n" using nl by (simp add: pre0_def)
  have "pre @ run = rev (takeWhile digit (rev pre0) @ dropWhile digit (rev pre0))"
    by (simp only: pre_def run_def rev_append)
  then have split: "pre0 = pre @ run"
    by (simp only: takeWhile_dropWhile_id rev_rev_ident)
  have "l = pre0 @ drop n l" by (simp add: pre0_def)
  then have l: "l = pre @ (run @ [d]) @ ''%'' @ post"
    by (simp only: split dr) simp
  have "set run \<subseteq> {c. digit c}"
    unfolding run_def using set_takeWhileD by fastforce
  with d have digits: "list_all digit (run @ [d])"
    by (auto simp: list_all_iff)
  have edge: "pre = [] \<or> \<not> digit (last pre)"
  proof (cases "dropWhile digit (rev pre0) = []")
    case True
    then show ?thesis by (simp add: pre_def)
  next
    case False
    then have "\<not> digit (hd (dropWhile digit (rev pre0)))" by (rule hd_dropWhile)
    with False show ?thesis by (simp add: pre_def last_rev)
  qed
  have clean: "\<not> has_token pre"
  proof
    assume "has_token pre"
    then obtain d' a b where d': "digit d'" and p: "pre = a @ [d', CHR ''%''] @ b"
      unfolding has_token_iff sublist_def by blast
    define rest where "rest = d' # CHR ''%'' # (b @ (run @ [d]) @ ''%'' @ post)"
    have "l = a @ rest"
      by (simp only: l p rest_def) simp
    moreover have "drop (length a) (a @ rest) = rest" by simp
    ultimately have "drop (length a) l = rest" by simp
    with d' have "P (length a)" unfolding P_def rest_def by blast
    moreover have "length a < n"
    proof -
      have "length pre = length a + 2 + length b" by (simp add: p)
      moreover have "length pre0 = length pre + length run" by (simp add: split)
      ultimately show ?thesis using len0 by linarith
    qed
    ultimately show False using least by blast
  qed
  have "run @ [d] \<noteq> []" by simp
  with l digits edge clean show ?thesis
    unfolding first_token_def by blast
qed

lemma lookahead_cases:
  "no_token_in_lookahead n h ls
   \<or> (\<exists>k ds. first_with n h has_token ls k \<and> first_token (ls ! k) ds)"
proof (cases "no_token_in_lookahead n h ls")
  case True
  then show ?thesis by simp
next
  case False
  define Q where "Q j \<longleftrightarrow> j < length ls \<and> in_context n h ls j \<and> has_token (ls ! j)" for j
  from False have "\<exists>j. Q j"
    unfolding Q_def no_token_in_lookahead_def list_all_iff by auto
  then obtain k where k: "Q k" and least: "\<And>j. j < k \<Longrightarrow> \<not> Q j"
    using exists_least_iff [of Q] by blast
  have "in_context n h ls j \<longrightarrow> \<not> has_token (ls ! j)" if "j < k" for j
    using least [OF that] k that unfolding Q_def by auto
  with k have "first_with n h has_token ls k"
    unfolding Q_def first_with_iff by blast
  moreover from k obtain ds where "first_token (ls ! k) ds"
    unfolding Q_def using first_token_exists by blast
  ultimately show ?thesis by blast
qed

section \<open>The claims\<close>

text \<open>
  Claim C1. Whenever a line of the captured screen lies in the two-line lookahead of a
  window's heading and carries a token (an integer directly followed by \<^verbatim>\<open>%\<close>), and no
  earlier line of that lookahead carries one, the parser assigns to the window exactly the
  digits of the first token of that line: \<^verbatim>\<open>claude-usage-json.sh\<close> stores the digits,
  \<^verbatim>\<open>claude-usage-compact.sh\<close> the digits with their \<^verbatim>\<open>%\<close>.
\<close>

theorem percent_is_first_token:
  assumes "k < length (screen_lines cap)"
    and "in_context 2 (heading w) (screen_lines cap) k"
    and "first_token (screen_lines cap ! k) ds"
    and "\<forall>j<k. in_context 2 (heading w) (screen_lines cap) j
           \<longrightarrow> \<not> has_token (screen_lines cap ! j)"
  shows "json_pct w cap = ds \<and> percent_used w cap = ds \<and> compact_pct w cap = ds @ ''%''"
proof -
  let ?ls = "screen_lines cap"
  let ?A = "{k. in_context 2 (heading w) ?ls k}"
  have "k \<in> ?A" using assms(2) by simp
  moreover have "\<not> has_token (?ls ! j)" if "j < k" "j \<in> ?A" for j
    using that assms(4) by simp
  ultimately have "head_1 (grep_oE_pct (nths ?ls ?A)) = [ds @ ''%'']"
    using assms(1,3) by (intro grep_oE_pct_first)
  then have pipe: "pct_pipeline (heading w) cap = [ds @ ''%'']"
    by (simp only: pct_pipeline_def grep_oE_pct_grep_A)
  from assms(3) have ds: "ds \<noteq> []" "list_all digit ds"
    unfolding first_token_def by blast+
  from pct_of_token [OF pipe ds(2)] ds(1) show ?thesis
    by (simp add: percent_used_def parameter_default_def)
qed

theorem percent_is_first_token_witness:
  "1 < length (screen_lines ''Current session\<newline>  45% used\<newline>  Resets 2h 30m\<newline>'')
   \<and> in_context 2 (heading Session)
        (screen_lines ''Current session\<newline>  45% used\<newline>  Resets 2h 30m\<newline>'') 1
   \<and> first_token
        (screen_lines ''Current session\<newline>  45% used\<newline>  Resets 2h 30m\<newline>'' ! 1) ''45''
   \<and> SESSION_PCT ''Current session\<newline>  45% used\<newline>  Resets 2h 30m\<newline>'' = ''45''
   \<and> compact_SESSION_PCT ''Current session\<newline>  45% used\<newline>  Resets 2h 30m\<newline>'' = ''45%''"
proof -
  let ?cap = "''Current session\<newline>  45% used\<newline>  Resets 2h 30m\<newline>''"
  have ls: "screen_lines ?cap = [''Current session'', ''  45% used'', ''  Resets 2h 30m'']"
    by code_simp
  have h1: "1 < length (screen_lines ?cap)"
    by (simp only: ls) simp
  have "in_context 2 (heading Session) [''Current session'', ''  45% used'', ''  Resets 2h 30m''] 1"
    by code_simp
  then have h2: "in_context 2 (heading Session) (screen_lines ?cap) 1"
    by (simp only: ls)
  have "\<not> has_token ''  ''" by code_simp
  then have "''  45% used'' = ''  '' @ ''45'' @ ''%'' @ '' used'' \<and> ''45'' \<noteq> []
      \<and> list_all digit ''45'' \<and> (''  '' = [] \<or> \<not> digit (last ''  '')) \<and> \<not> has_token ''  ''"
    by (simp add: digit_def)
  then have "first_token ''  45% used'' ''45''"
    unfolding first_token_def by (intro exI [of _ "''  ''"] exI [of _ "'' used''"])
  then have h3: "first_token (screen_lines ?cap ! 1) ''45''"
    by (simp only: ls nth_Cons_0 nth_Cons_Suc One_nat_def)
  have "\<not> has_token ''Current session''" by code_simp
  then have "\<forall>j<(1::nat).
      in_context 2 (heading Session) [''Current session'', ''  45% used'', ''  Resets 2h 30m''] j
      \<longrightarrow> \<not> has_token ([''Current session'', ''  45% used'', ''  Resets 2h 30m''] ! j)"
    by simp
  then have h4: "\<forall>j<1. in_context 2 (heading Session) (screen_lines ?cap) j
      \<longrightarrow> \<not> has_token (screen_lines ?cap ! j)"
    by (simp only: ls)
  from percent_is_first_token [OF h1 h2 h3 h4] h1 h2 h3 show ?thesis
    by (simp only: SESSION_PCT_def compact_SESSION_PCT_def) simp
qed

text \<open>
  Claim C2, as amended. The output of the compact mode never contains a minus sign. It is
  the line \<^verbatim>\<open>Claude: T1 | Week: T2\<close> of the two variables, and the field of a window is
  decided by its lookahead alone: when no line of the lookahead has a token the field is the
  placeholder, and otherwise it is the first token of the first line that has one, its
  digits \<open>ds\<close> followed by \<^verbatim>\<open>%\<close>, printed as matched whatever number the digits denote
  (one of the two cases always holds). There is no check of the range: a value above 100
  is printed and never replaced by the placeholder.
\<close>

theorem compact_percent_verbatim:
  "CHR ''-'' \<notin> set (compact_stdout cap)
   \<and> compact_stdout cap
       = ''Claude: '' @ parameter_default (compact_pct Session cap) ''?''
         @ '' | Week: '' @ parameter_default (compact_pct Week_all_models cap) ''?'' @ [newline]
   \<and> (first_with 2 (heading w) has_token (screen_lines cap) k
        \<and> first_token (screen_lines cap ! k) ds
        \<longrightarrow> parameter_default (compact_pct w cap) ''?'' = ds @ ''%'')
   \<and> (no_token_in_lookahead 2 (heading w) (screen_lines cap)
        \<longrightarrow> parameter_default (compact_pct w cap) ''?'' = ''?'')
   \<and> (no_token_in_lookahead 2 (heading w) (screen_lines cap)
      \<or> (\<exists>k ds. first_with 2 (heading w) has_token (screen_lines cap) k
            \<and> first_token (screen_lines cap ! k) ds))
   \<and> (compact_pct w cap = []
      \<or> (\<exists>ds l. compact_pct w cap = ds @ ''%'' \<and> ds \<noteq> [] \<and> list_all digit ds
            \<and> l \<in> set (screen_lines cap) \<and> sublist (ds @ ''%'') l))"
proof (intro conjI impI)
  show "no_token_in_lookahead 2 (heading w) (screen_lines cap)
      \<or> (\<exists>k ds. first_with 2 (heading w) has_token (screen_lines cap) k
            \<and> first_token (screen_lines cap ! k) ds)"
    by (rule lookahead_cases)
  show "CHR ''-'' \<notin> set (compact_stdout cap)"
    using compact_field_no_minus [of Session cap] compact_field_no_minus [of Week_all_models cap]
    by (simp add: compact_stdout_eq newline_def)
  show "compact_stdout cap
       = ''Claude: '' @ parameter_default (compact_pct Session cap) ''?''
         @ '' | Week: '' @ parameter_default (compact_pct Week_all_models cap) ''?'' @ [newline]"
    by (rule compact_stdout_eq)
  show "compact_pct w cap = []
      \<or> (\<exists>ds l. compact_pct w cap = ds @ ''%'' \<and> ds \<noteq> [] \<and> list_all digit ds
            \<and> l \<in> set (screen_lines cap) \<and> sublist (ds @ ''%'') l)"
    using compact_pct_cases [of w cap] by blast
next
  assume a: "first_with 2 (heading w) has_token (screen_lines cap) k
        \<and> first_token (screen_lines cap ! k) ds"
  then have pipe: "pct_pipeline (heading w) cap = [ds @ ''%'']"
    using pct_pipeline_first by blast
  from a have ds: "list_all digit ds"
    unfolding first_token_def by blast
  from pct_of_token(2) [OF pipe ds]
  show "parameter_default (compact_pct w cap) ''?'' = ds @ ''%''"
    by (simp add: parameter_default_def)
next
  assume "no_token_in_lookahead 2 (heading w) (screen_lines cap)"
  then have "pct_pipeline (heading w) cap = []" by (rule pct_pipeline_none)
  then have "compact_pct w cap = []" by (rule pct_of_nothing(2))
  then show "parameter_default (compact_pct w cap) ''?'' = ''?''"
    by (simp add: parameter_default_def)
qed

theorem compact_percent_verbatim_witness:
  "first_with 2 (heading Session) has_token
     (screen_lines ''Current session\<newline>  -250% used\<newline>'') 1
   \<and> first_token (screen_lines ''Current session\<newline>  -250% used\<newline>'' ! 1) ''250''
   \<and> no_token_in_lookahead 2 (heading Week_all_models)
        (screen_lines ''Current session\<newline>  -250% used\<newline>'')
   \<and> parameter_default (compact_pct Session ''Current session\<newline>  -250% used\<newline>'') ''?''
       = ''250%''
   \<and> parameter_default (compact_pct Week_all_models ''Current session\<newline>  -250% used\<newline>'') ''?''
       = ''?''
   \<and> compact_stdout ''Current session\<newline>  -250% used\<newline>'' = ''Claude: 250% | Week: ?\<newline>''"
proof -
  let ?cap = "''Current session\<newline>  -250% used\<newline>''"
  have ls: "screen_lines ?cap = [''Current session'', ''  -250% used'']"
    by code_simp
  have "first_with 2 (heading Session) has_token [''Current session'', ''  -250% used''] 1"
    by code_simp
  then have h1: "first_with 2 (heading Session) has_token (screen_lines ?cap) 1"
    by (simp only: ls)
  have "\<not> has_token ''  -''" by code_simp
  then have "''  -250% used'' = ''  -'' @ ''250'' @ ''%'' @ '' used'' \<and> ''250'' \<noteq> []
      \<and> list_all digit ''250'' \<and> (''  -'' = [] \<or> \<not> digit (last ''  -'')) \<and> \<not> has_token ''  -''"
    by (simp add: digit_def)
  then have "first_token ''  -250% used'' ''250''"
    unfolding first_token_def by (intro exI [of _ "''  -''"] exI [of _ "'' used''"])
  then have h2: "first_token (screen_lines ?cap ! 1) ''250''"
    by (simp only: ls nth_Cons_0 nth_Cons_Suc One_nat_def)
  have "no_token_in_lookahead 2 (heading Week_all_models) [''Current session'', ''  -250% used'']"
    by code_simp
  then have h3: "no_token_in_lookahead 2 (heading Week_all_models) (screen_lines ?cap)"
    by (simp only: ls)
  from compact_percent_verbatim [of ?cap Session 1 "''250''"] h1 h2
  have s: "parameter_default (compact_pct Session ?cap) ''?'' = ''250%''"
    by simp
  from compact_percent_verbatim [of ?cap Week_all_models] h3
  have w: "parameter_default (compact_pct Week_all_models ?cap) ''?'' = ''?''"
    by blast
  from compact_percent_verbatim [of ?cap]
  have "compact_stdout ?cap
       = ''Claude: '' @ parameter_default (compact_pct Session ?cap) ''?''
         @ '' | Week: '' @ parameter_default (compact_pct Week_all_models ?cap) ''?'' @ [newline]"
    by blast
  then have "compact_stdout ?cap = ''Claude: 250% | Week: ?\<newline>''"
    by (simp only: s w) (simp add: newline_def)
  with h1 h2 h3 s w show ?thesis by blast
qed

text \<open>
  Claim C2 as stated fails: a screen that shows \<^verbatim>\<open>150% used\<close> under the session heading
  makes the compact mode print 150.
\<close>

theorem compact_over_100_counterexample:
  "compact_stdout ''Current session\<newline>  150% used\<newline>'' = ''Claude: 150% | Week: ?\<newline>''"
  by code_simp

text \<open>
  Claim C3 on two screens. A reset description with double quotes is copied between the
  quotes of the \<^verbatim>\<open>resets\<close> field without escaping, and a percentage with leading zeros is
  copied as the number of \<^verbatim>\<open>percent_used\<close>: in both cases the output is not a well-formed
  JSON object, while it is one for the screen of the scenario.
\<close>

theorem json_unescaped_output:
  "read_lines (json_stdout ''2026-01-01T00:00:00+00:00''
       (''Current session\<newline>  45% used\<newline>  Resets '' @ quoted ''soon'' @ ''\<newline>'')) ! 4
     = ''    '' @ quoted ''resets'' @ '': '' @ quoted (quoted ''soon'')
   \<and> \<not> json_object (json_stdout ''2026-01-01T00:00:00+00:00''
       (''Current session\<newline>  45% used\<newline>  Resets '' @ quoted ''soon'' @ ''\<newline>''))
   \<and> read_lines (json_stdout ''2026-01-01T00:00:00+00:00''
       ''Current session\<newline>  007% used\<newline>'') ! 3
     = ''    '' @ quoted ''percent_used'' @ '': 007,''
   \<and> \<not> json_object (json_stdout ''2026-01-01T00:00:00+00:00''
       ''Current session\<newline>  007% used\<newline>'')
   \<and> json_object (json_stdout ''2026-01-01T00:00:00+00:00''
       ''Current session\<newline>  45% used\<newline>  Resets 2h 30m\<newline>'')"
  by code_simp

text \<open>
  Claim C4, as amended. For every captured screen the compact mode prints exactly one line
  \<^verbatim>\<open>Claude: T1 | Week: T2\<close> and returns 0, where each of \<open>T1\<close> and \<open>T2\<close> is the digits
  of the matched token followed by \<^verbatim>\<open>%\<close>, or the placeholder \<^verbatim>\<open>?\<close> alone, without a
  \<^verbatim>\<open>%\<close>, exactly when the pipeline of the window found no token.
\<close>

theorem compact_one_line:
  "\<exists>t1 t2.
     stdout (fst (claude_usage_compact sys pid r0))
       = ''Claude: '' @ t1 @ '' | Week: '' @ t2 @ [newline]
     \<and> read_lines (stdout (fst (claude_usage_compact sys pid r0)))
       = [''Claude: '' @ t1 @ '' | Week: '' @ t2]
     \<and> placeholder_or_percent ''Current session'' (fst (capture_session sys pid r0)) t1
     \<and> placeholder_or_percent ''Current week (all models)'' (fst (capture_session sys pid r0)) t2
     \<and> exit_status (fst (claude_usage_compact sys pid r0)) = 0"
proof -
  let ?cap = "fst (capture_session sys pid r0)"
  let ?t1 = "parameter_default (compact_pct Session ?cap) ''?''"
  let ?t2 = "parameter_default (compact_pct Week_all_models ?cap) ''?''"
  let ?line = "''Claude: '' @ ?t1 @ '' | Week: '' @ ?t2"
  have out: "stdout (fst (claude_usage_compact sys pid r0)) = ?line @ [newline]"
    by (simp add: claude_usage_compact_result compact_stdout_eq)
  from compact_field [of Session ?cap] compact_field [of Week_all_models ?cap]
  have f: "placeholder_or_percent ''Current session'' ?cap ?t1"
    "placeholder_or_percent ''Current week (all models)'' ?cap ?t2"
    and n: "newline \<notin> set ?line"
    by (simp_all add: newline_def)
  from n have "read_lines (?line @ newline # []) = ?line # read_lines []"
    by (rule read_lines_line)
  then have "read_lines (stdout (fst (claude_usage_compact sys pid r0))) = [?line]"
    by (simp only: out read_lines.simps(1))
  with out f show ?thesis
    by (intro exI [of _ ?t1] exI [of _ ?t2]) (simp add: claude_usage_compact_result)
qed

theorem compact_one_line_witness:
  "stdout (fst (claude_usage_compact (quiet_system ''Current session\<newline>  45% used\<newline>'')
       ''77'' \<lparr>world = (), trace = []\<rparr>)) = ''Claude: 45% | Week: ?\<newline>''
   \<and> exit_status (fst (claude_usage_compact (quiet_system ''Current session\<newline>  45% used\<newline>'')
       ''77'' \<lparr>world = (), trace = []\<rparr>)) = 0"
proof -
  from compact_one_line [of "quiet_system ''Current session\<newline>  45% used\<newline>''" "''77''"
      "\<lparr>world = (), trace = []\<rparr>"]
  have "exit_status (fst (claude_usage_compact (quiet_system ''Current session\<newline>  45% used\<newline>'')
       ''77'' \<lparr>world = (), trace = []\<rparr>)) = 0"
    by blast
  moreover have "stdout (fst (claude_usage_compact (quiet_system ''Current session\<newline>  45% used\<newline>'')
       ''77'' \<lparr>world = (), trace = []\<rparr>)) = ''Claude: 45% | Week: ?\<newline>''"
    by code_simp
  ultimately show ?thesis by simp
qed

text \<open>
  Claim C4 as stated fails: for the empty screen the line has no \<^verbatim>\<open>%\<close> at all, so it is
  not of the form \<^verbatim>\<open>Claude: P1% | Week: P2%\<close>.
\<close>

theorem compact_placeholder_counterexample:
  "compact_stdout [] = ''Claude: ? | Week: ?\<newline>'' \<and> \<not> sublist ''%'' (compact_stdout [])"
  by code_simp







text \<open>
  Claim C7. For the captured text of the scenario, a heading line, a line with
  \<^verbatim>\<open>45% used\<close> and a line with \<^verbatim>\<open>Resets 2h 30m\<close>, the session window gets the percentage 45
  and the reset description \<^verbatim>\<open>2h 30m\<close>, the text after the keyword.
\<close>

theorem scenario_session_45:
  "SESSION_PCT ''Current session\<newline>  45% used\<newline>  Resets 2h 30m\<newline>'' = ''45''
   \<and> SESSION_RESET ''Current session\<newline>  45% used\<newline>  Resets 2h 30m\<newline>'' = ''2h 30m''"
  by code_simp

text \<open>
  Claim C8, as amended. The reset string that the JSON mode emits never contains
  \<^verbatim>\<open>Resets\<close> followed by a space. It comes from the first line in the three-line lookahead
  that contains \<^verbatim>\<open>Resets\<close>: when that line contains \<^verbatim>\<open>Resets\<close> followed by a space, the
  description is the text after the last such occurrence; otherwise it is the whole line.
\<close>

theorem reset_after_last_keyword:
  "\<not> sublist ''Resets '' (resets w cap)
   \<and> (first_with 3 (heading w) (sublist ''Resets'') (screen_lines cap) k \<longrightarrow>
        (if sublist ''Resets '' (screen_lines cap ! k)
         then \<exists>pre. screen_lines cap ! k = pre @ ''Resets '' @ json_reset w cap
                \<and> (\<forall>pre' r'. screen_lines cap ! k = pre' @ ''Resets '' @ r'
                      \<longrightarrow> length pre' \<le> length pre)
         else json_reset w cap = screen_lines cap ! k))"
proof (intro conjI impI)
  show "\<not> sublist ''Resets '' (resets w cap)" by (rule resets_clean)
next
  let ?l = "screen_lines cap ! k"
  assume "first_with 3 (heading w) (sublist ''Resets'') (screen_lines cap) k"
  then have r: "json_reset w cap = sed_delete_through ''Resets '' ?l"
    by (rule reset_first_line)
  have "''Resets '' \<noteq> []" by simp
  from sed_delete_through_cases [OF this, of ?l]
  show "if sublist ''Resets '' ?l
         then \<exists>pre. ?l = pre @ ''Resets '' @ json_reset w cap
                \<and> (\<forall>pre' r'. ?l = pre' @ ''Resets '' @ r' \<longrightarrow> length pre' \<le> length pre)
         else json_reset w cap = ?l"
    unfolding r by (auto simp: sublist_def)
qed

theorem reset_after_last_keyword_witness:
  "first_with 3 (heading Session) (sublist ''Resets'')
     (screen_lines ''Current session\<newline>  45% used\<newline>  Resets soon, Resets 2h 30m\<newline>'') 2
   \<and> sublist ''Resets ''
       (screen_lines ''Current session\<newline>  45% used\<newline>  Resets soon, Resets 2h 30m\<newline>'' ! 2)
   \<and> SESSION_RESET ''Current session\<newline>  45% used\<newline>  Resets soon, Resets 2h 30m\<newline>'' = ''2h 30m''
   \<and> (\<exists>pre. ''  Resets soon, Resets 2h 30m'' = pre @ ''Resets '' @ ''2h 30m''
         \<and> (\<forall>pre' r'. ''  Resets soon, Resets 2h 30m'' = pre' @ ''Resets '' @ r'
               \<longrightarrow> length pre' \<le> length pre))"
proof -
  let ?cap = "''Current session\<newline>  45% used\<newline>  Resets soon, Resets 2h 30m\<newline>''"
  have ls: "screen_lines ?cap = [''Current session'', ''  45% used'', ''  Resets soon, Resets 2h 30m'']"
    by code_simp
  have "first_with 3 (heading Session) (sublist ''Resets'')
      [''Current session'', ''  45% used'', ''  Resets soon, Resets 2h 30m''] 2"
    by code_simp
  then have h: "first_with 3 (heading Session) (sublist ''Resets'') (screen_lines ?cap) 2"
    by (simp only: ls)
  have s: "sublist ''Resets '' (screen_lines ?cap ! 2)"
    unfolding ls by code_simp
  have v: "SESSION_RESET ?cap = ''2h 30m''"
    by code_simp
  have l2: "screen_lines ?cap ! 2 = ''  Resets soon, Resets 2h 30m''"
    by (simp add: ls)
  from reset_after_last_keyword [of Session ?cap 2, THEN conjunct2, rule_format, OF h] s
  have "\<exists>pre. screen_lines ?cap ! 2 = pre @ ''Resets '' @ json_reset Session ?cap
         \<and> (\<forall>pre' r'. screen_lines ?cap ! 2 = pre' @ ''Resets '' @ r'
               \<longrightarrow> length pre' \<le> length pre)"
    by (simp only: if_True)
  then show ?thesis
    using h s v unfolding l2 SESSION_RESET_def by simp
qed

text \<open>
  Claim C8 as stated fails when the first line with \<^verbatim>\<open>Resets\<close> has no space after the
  keyword: the description is that whole line, not the text after the keyword on a line.
\<close>

theorem reset_whole_line_counterexample:
  "screen_lines ''Current session\<newline>Resets\<newline>until Resets 2h\<newline>''
     = [''Current session'', ''Resets'', ''until Resets 2h'']
   \<and> \<not> sublist ''Resets '' ''Resets''
   \<and> SESSION_RESET ''Current session\<newline>Resets\<newline>until Resets 2h\<newline>'' = ''Resets''"
  by code_simp

text \<open>
  Claim C9. Every line that \<^verbatim>\<open>claude-usage.sh\<close> prints is non-empty, does not begin with a
  whitespace character and contains one of \<^verbatim>\<open>Current session\<close>, \<^verbatim>\<open>Current week\<close>,
  \<^verbatim>\<open>% used\<close>, \<^verbatim>\<open>Resets\<close>.
\<close>

theorem usage_lines_printed:
  "\<forall>l\<in>set (read_lines (stdout (fst (claude_usage sys pid r0)))).
     l \<noteq> [] \<and> \<not> space_class (hd l)
     \<and> (sublist ''Current session'' l \<or> sublist ''Current week'' l
        \<or> sublist ''% used'' l \<or> sublist ''Resets'' l)"
proof
  fix l
  let ?cap = "fst (capture_session sys pid r0)"
  assume "l \<in> set (read_lines (stdout (fst (claude_usage sys pid r0))))"
  moreover have "read_lines (write_lines (usage_lines ?cap)) = usage_lines ?cap"
    using usage_line(4) by (rule read_lines_write_lines)
  ultimately have "l \<in> set (usage_lines ?cap)"
    by (simp only: claude_usage_stdout)
  from usage_line(1-3) [OF this]
  show "l \<noteq> [] \<and> \<not> space_class (hd l)
     \<and> (sublist ''Current session'' l \<or> sublist ''Current week'' l
        \<or> sublist ''% used'' l \<or> sublist ''Resets'' l)"
    by (simp add: usage_keywords_def)
qed

theorem usage_lines_printed_witness:
  "read_lines (stdout (fst (claude_usage
       (quiet_system ''Current session\<newline>  45% used\<newline>\<newline>  Resets 2h 30m\<newline>other\<newline>'')
       ''77'' \<lparr>world = (), trace = []\<rparr>)))
     = [''Current session'', ''45% used'', ''Resets 2h 30m'']
   \<and> \<not> space_class (hd ''45% used'') \<and> sublist ''% used'' ''45% used''"
proof -
  let ?out = "stdout (fst (claude_usage
       (quiet_system ''Current session\<newline>  45% used\<newline>\<newline>  Resets 2h 30m\<newline>other\<newline>'')
       ''77'' \<lparr>world = (), trace = []\<rparr>))"
  have ls: "read_lines ?out = [''Current session'', ''45% used'', ''Resets 2h 30m'']"
    by code_simp
  then have "''45% used'' \<in> set (read_lines ?out)" by simp
  from usage_lines_printed [THEN bspec, OF this] ls show ?thesis
    by code_simp
qed

text \<open>
  Claim C10 at NaN. NaN is a \<^verbatim>\<open>number\<close>, and \<^verbatim>\<open>Math.max(0, NaN)\<close> is NaN: the width of the
  fill is then NaN, which lies in no range, although the component computes it under the
  comment \<^verbatim>\<open>Ensure percent is within bounds\<close>.
\<close>

theorem usage_bar_nan_width:
  "fill_width (UsageBar NaN Default) = NaN
   \<and> \<not> (number_le (Finite 0) (fill_width (UsageBar NaN Default))
        \<and> number_le (fill_width (UsageBar NaN Default)) (Finite 100))"
  by (simp add: UsageBar_def clampedPercent_def Math_min_def Math_max_def)

text \<open>
  For every percent other than NaN (negative values, values above 100 and the infinities
  included) the fill has the width \<^verbatim>\<open>Math.min(100, Math.max(0, percent))\<close>, which lies
  between 0 and 100, and the label shows \<^verbatim>\<open>Math.round(percent)\<close>, not clamped.
\<close>

theorem usage_bar_clamped:
  assumes "percent \<noteq> NaN"
  shows "fill_width (UsageBar percent v) = Math_min (Finite 100) (Math_max (Finite 0) percent)
       \<and> number_le (Finite 0) (fill_width (UsageBar percent v))
       \<and> number_le (fill_width (UsageBar percent v)) (Finite 100)
       \<and> label (UsageBar percent v) = Math_round percent"
  using assms
  by (cases percent) (simp_all add: UsageBar_def clampedPercent_def Math_min_def Math_max_def)

theorem usage_bar_clamped_witness:
  "Finite 150 \<noteq> NaN \<and> Finite (- 20) \<noteq> NaN
   \<and> fill_width (UsageBar (Finite 150) Default) = Finite 100
   \<and> label (UsageBar (Finite 150) Default) = Finite 150
   \<and> fill_width (UsageBar (Finite (- 20)) Opus) = Finite 0
   \<and> label (UsageBar (Finite (- 20)) Opus) = Finite (- 20)
   \<and> label (UsageBar (Finite (5 / 2)) Default) = Finite 3"
proof -
  have a: "Finite 150 \<noteq> NaN" and b: "Finite (- 20) \<noteq> NaN" and c: "Finite (5 / 2) \<noteq> NaN"
    by simp_all
  have "\<lfloor>(5::real) / 2 + 1 / 2\<rfloor> = 3" "\<lfloor>(150::real) + 1 / 2\<rfloor> = 150" "\<lfloor>- (20::real) + 1 / 2\<rfloor> = - 20"
    by linarith+
  then show ?thesis
    using usage_bar_clamped [OF a, of Default] usage_bar_clamped [OF b, of Opus]
      usage_bar_clamped [OF c, of Default]
    by (simp add: Math_min_def Math_max_def)
qed

end
